theory Spec2Isabelle
  imports Complex_Main
begin

section \<open>The elimination engine of gauss.py\<close>

text \<open>
  The matrix is a Python list of rows, each row a list of \<open>Fraction\<close>s: exact rationals.
  The engine is the generator \<open>gauss(a, i, j, produce_latex)\<close>. It mutates the list \<open>a\<close>
  in place and yields pairs (matrix or \<open>None\<close>, explanation dict or \<open>None\<close>).

  The model passes the matrix explicitly and returns the list of the frames yielded, in
  order, together with the way the generator ended: the matrix as the call left it, or
  the exception that escaped. Rows are only ever replaced by new lists
  (\<open>a[i] = [...]\<close>), never changed in place, so the shallow copy \<open>list(a)\<close> of a frame
  keeps the value the matrix had when the frame was yielded. The frame \<open>(a, dict())\<close> of
  the \<open>except\<close> clause holds the list \<open>a\<close> itself; the model records the value it has
  when the frame is yielded, which is what a consumer that reads each frame as it comes
  sees. On a matrix that passed \<open>check_matrix\<close> that value is already the final one
  (see \<open>gauss_trace_shape\<close> below).
\<close>

type_synonym matrix = "rat list list"

datatype error = IndexError | ZeroDivisionError | ValueError

text \<open>
  An explanation dict \<open>{line nr: explanation}\<close> is kept as the list of its items in
  insertion order; the engine never stores a key twice in one dict.
\<close>

type_synonym 'e explanations = "(nat \<times> 'e) list"

type_synonym 'e frame = "matrix option \<times> 'e explanations option"

text \<open>
  The module \<open>helpers\<close> (\<open>exp_swap\<close>, \<open>exp_divide\<close>, \<open>exp_minus\<close>, \<open>print_matrix\<close>) is not
  part of the sources. The three functions the engine calls to build explanation texts
  are parameters of the model; \<open>'e\<close> is the type of what they return.
\<close>

record 'e helpers =
  exp_swap :: "nat \<Rightarrow> nat \<Rightarrow> bool \<Rightarrow> 'e"
  exp_divide :: "rat \<Rightarrow> bool \<Rightarrow> 'e"
  exp_minus :: "rat \<Rightarrow> nat \<Rightarrow> bool \<Rightarrow> 'e"

text \<open>
  For concrete runs the helpers are taken symbolically: an explanation is the call that
  builds it, with its arguments.
\<close>

datatype explanation = Exp_swap nat nat bool | Exp_divide rat bool | Exp_minus rat nat bool

definition calls :: "explanation helpers" where
  "calls = \<lparr>exp_swap = Exp_swap, exp_divide = Exp_divide, exp_minus = Exp_minus\<rparr>"

text \<open>
  \<open>check_matrix\<close>: \<open>matrix[0]\<close> raises \<open>IndexError\<close> on the empty matrix, and rows of
  different lengths raise \<open>ValueError\<close>.
\<close>

definition check_matrix :: "matrix \<Rightarrow> error + unit" where
  "check_matrix a =
     (if a = [] then Inl IndexError
      else if list_all (\<lambda>row. length row = length (a ! 0)) a then Inr ()
      else Inl ValueError)"

text \<open>\<open>a[i][j]\<close>: either index out of range raises \<open>IndexError\<close>.\<close>

definition cell :: "matrix \<Rightarrow> nat \<Rightarrow> nat \<Rightarrow> error + rat" where
  "cell a i j =
     (if i < length a \<and> j < length (a ! i) then Inr (a ! i ! j) else Inl IndexError)"

text \<open>
  The search \<open>for r in range(i + 1, m): if a[r][j] != 0: ... break\<close>, over the list of
  the candidate rows: the first row with a non-zero entry in column \<open>j\<close>, or \<open>None\<close>
  when the loop runs into its \<open>else\<close> clause.
\<close>

fun find_row :: "matrix \<Rightarrow> nat \<Rightarrow> nat list \<Rightarrow> error + nat option" where
  "find_row a j [] = Inr None"
| "find_row a j (r # rs) =
     (case cell a r j of
        Inl e \<Rightarrow> Inl e
      | Inr x \<Rightarrow> if x \<noteq> 0 then Inr (Some r) else find_row a j rs)"

text \<open>\<open>a[r], a[i] = a[i], a[r]\<close>: both right-hand sides are read first.\<close>

definition swap_rows :: "matrix \<Rightarrow> nat \<Rightarrow> nat \<Rightarrow> matrix" where
  "swap_rows a i r = (a[r := a ! i])[i := a ! r]"

text \<open>
  The body of the \<open>try\<close> block up to its \<open>yield\<close>:
  \<open>divisor = a[i][j]; a[i] = [coeff / divisor for coeff in a[i]]\<close>.
  Dividing a \<open>Fraction\<close> by zero raises \<open>ZeroDivisionError\<close> at the first coefficient
  (the row is not empty, since \<open>a[i][j]\<close> was read), before \<open>a[i]\<close> is assigned.
\<close>

definition normalize_row :: "matrix \<Rightarrow> nat \<Rightarrow> nat \<Rightarrow> error + matrix \<times> rat" where
  "normalize_row a i j =
     (case cell a i j of
        Inl e \<Rightarrow> Inl e
      | Inr divisor \<Rightarrow>
          if divisor = 0 then Inl ZeroDivisionError
          else Inr (a[i := map (\<lambda>coeff. coeff / divisor) (a ! i)], divisor))"

text \<open>
  The loop \<open>for k in range(i + 1, m)\<close> over the list of its rows \<open>k\<close>, threading the
  matrix and the explanations collected so far. \<open>zip\<close> stops at the shorter row.
\<close>

fun eliminate ::
  "'e helpers \<Rightarrow> bool \<Rightarrow> nat \<Rightarrow> nat \<Rightarrow> nat list \<Rightarrow> matrix \<times> 'e explanations
    \<Rightarrow> error + matrix \<times> 'e explanations" where
  "eliminate h pl i j [] (a, ex) = Inr (a, ex)"
| "eliminate h pl i j (k # ks) (a, ex) =
     (case cell a k j of
        Inl e \<Rightarrow> Inl e
      | Inr factor \<Rightarrow>
          eliminate h pl i j ks
            (a[k := map (\<lambda>(coeff_k, coeff_i). coeff_k - factor * coeff_i) (zip (a ! k) (a ! i))],
             ex @ [(k, exp_minus h factor i pl)]))"

text \<open>\<open>if i == j == 0: yield (list(a), None)\<close>.\<close>

definition initial_frame :: "matrix \<Rightarrow> nat \<Rightarrow> nat \<Rightarrow> 'e frame list" where
  "initial_frame a i j = (if i = 0 \<and> j = 0 then [(Some a, None)] else [])"

text \<open>
  The generator. \<open>fs0\<close> is the initial frame, \<open>fs1\<close> the frames of the zero-pivot
  handling (the swap frame, or every frame of the recursion on the next column), then
  come the frame of the normalization, the frame of the elimination and the frames of
  the recursion on the next row and column. An \<open>IndexError\<close> ends the generator after
  the frames yielded so far; a \<open>ZeroDivisionError\<close> of the normalization is caught and
  answered by the frame \<open>(a, dict())\<close> and \<open>return\<close>. The bounds \<open>m\<close> of both loops are
  the \<open>len(a)\<close> read at the start of the call.
\<close>

function gauss ::
  "'e helpers \<Rightarrow> matrix \<Rightarrow> nat \<Rightarrow> nat \<Rightarrow> bool \<Rightarrow> 'e frame list \<times> (error + matrix)" where
  "gauss h a i j pl =
     (let fs0 = initial_frame a i j in
      if a = [] then (fs0, Inl IndexError)
      else if i = length a \<or> j = length (a ! 0) then (fs0 @ [(None, Some [])], Inr a)
      else
        (case cell a i j of
           Inl e \<Rightarrow> (fs0, Inl e)
         | Inr p \<Rightarrow>
            (case (if p = 0 then
                     (case find_row a j [i + 1 ..< length a] of
                        Inl e \<Rightarrow> ([], Inl e)
                      | Inr (Some r) \<Rightarrow>
                          ([(Some (swap_rows a i r), Some [(i, exp_swap h i r pl)])],
                           Inr (swap_rows a i r))
                      | Inr None \<Rightarrow> gauss h a i (j + 1) pl)
                   else ([], Inr a)) of
               (fs1, Inl e) \<Rightarrow> (fs0 @ fs1, Inl e)
             | (fs1, Inr a1) \<Rightarrow>
                (case normalize_row a1 i j of
                   Inl e \<Rightarrow>
                     if e = ZeroDivisionError then (fs0 @ fs1 @ [(Some a1, Some [])], Inr a1)
                     else (fs0 @ fs1, Inl e)
                 | Inr (a2, divisor) \<Rightarrow>
                    (case eliminate h pl i j [i + 1 ..< length a] (a2, []) of
                       Inl e \<Rightarrow>
                         (fs0 @ fs1 @ [(Some a2, Some [(i, exp_divide h divisor pl)])], Inl e)
                     | Inr (a3, explanations) \<Rightarrow>
                        (case gauss h a3 (i + 1) (j + 1) pl of
                           (fs4, res) \<Rightarrow>
                             (fs0 @ fs1 @
                              [(Some a2, Some [(i, exp_divide h divisor pl)]),
                               (Some a3, Some explanations)] @ fs4,
                              res)))))))"
  by pat_completeness auto

section \<open>Notions used by the statements\<close>

text \<open>
  A matrix that passed \<open>check_matrix\<close> is not empty and all its rows have the length of
  the first one. \<open>rect n a\<close>: every row of \<open>a\<close> has length \<open>n\<close>.
\<close>

definition rect :: "nat \<Rightarrow> matrix \<Rightarrow> bool" where
  "rect n a = list_all (\<lambda>row. length row = n) a"

text \<open>
  What a call with pivot row \<open>i\<close> may do to the matrix: the result \<open>a'\<close> is rectangular
  with as many rows, the rows above \<open>i\<close> are the same, and a column that is zero in all
  rows from \<open>i\<close> on stays zero there.
\<close>

definition below_only :: "nat \<Rightarrow> nat \<Rightarrow> matrix \<Rightarrow> matrix \<Rightarrow> bool" where
  "below_only n i a a' \<longleftrightarrow>
     rect n a' \<and> length a' = length a \<and> (\<forall>r<i. a' ! r = a ! r) \<and>
     (\<forall>c<n. (\<forall>r. i \<le> r \<and> r < length a \<longrightarrow> a ! r ! c = 0) \<longrightarrow>
            (\<forall>r. i \<le> r \<and> r < length a \<longrightarrow> a' ! r ! c = 0))"

text \<open>
  The zero block of a call with pivot position \<open>(i, j)\<close>: the entries in the rows from
  \<open>i\<close> on and in the columns before \<open>j\<close> are all zero.
\<close>

definition zero_block :: "matrix \<Rightarrow> nat \<Rightarrow> nat \<Rightarrow> bool" where
  "zero_block a i j = list_all (\<lambda>r. list_all (\<lambda>c. a ! r ! c = 0) [0..<j]) [i..<length a]"

text \<open>
  The calls of a run \<open>gauss(a0)\<close>: \<open>reached h pl a0 a i j\<close> when the run invokes
  \<open>gauss(a, i, j)\<close> with the matrix in state \<open>a\<close>. The run starts at \<open>(a0, 0, 0)\<close>; a call
  invokes \<open>gauss(a, i, j + 1)\<close> in the \<open>else\<close> clause of its search loop, and
  \<open>gauss(a, i + 1, j + 1)\<close> at its end, with the matrix as the normalization and the
  elimination left it.
\<close>

inductive reached :: "'e helpers \<Rightarrow> bool \<Rightarrow> matrix \<Rightarrow> matrix \<Rightarrow> nat \<Rightarrow> nat \<Rightarrow> bool"
  for h :: "'e helpers" and pl :: bool and a0 :: matrix where
  start: "reached h pl a0 a0 0 0"
| next_column:
    "reached h pl a0 a i j \<Longrightarrow> a \<noteq> [] \<Longrightarrow> \<not> (i = length a \<or> j = length (a ! 0)) \<Longrightarrow>
     cell a i j = Inr 0 \<Longrightarrow> find_row a j [i + 1..<length a] = Inr None \<Longrightarrow>
     reached h pl a0 a i (j + 1)"
| next_row:
    "reached h pl a0 a i j \<Longrightarrow> a \<noteq> [] \<Longrightarrow> \<not> (i = length a \<or> j = length (a ! 0)) \<Longrightarrow>
     cell a i j = Inr p \<Longrightarrow>
     (if p = 0 then
        (case find_row a j [i + 1..<length a] of
           Inl e \<Rightarrow> ([], Inl e)
         | Inr (Some r) \<Rightarrow>
             ([(Some (swap_rows a i r), Some [(i, exp_swap h i r pl)])], Inr (swap_rows a i r))
         | Inr None \<Rightarrow> gauss h a i (j + 1) pl)
      else ([], Inr a)) = (fs1, Inr a1) \<Longrightarrow>
     normalize_row a1 i j = Inr (a2, divisor) \<Longrightarrow>
     eliminate h pl i j [i + 1..<length a] (a2, []) = Inr (a3, explanations) \<Longrightarrow>
     reached h pl a0 a3 (i + 1) (j + 1)"

text \<open>
  What a frame shows apart from the explanation texts: its matrix and the row numbers
  its explanation dict has as keys.
\<close>

definition frame_shape :: "'e frame \<Rightarrow> matrix option \<times> nat list option" where
  "frame_shape f = (fst f, map_option (map fst) (snd f))"

text \<open>
  The frames of a run that changes nothing, on the matrix \<open>a\<close>: the initial frame, the
  sentinel, a frame with no explanation, the frame of a division of row \<open>i\<close> by \<open>1\<close>, and
  the frame of an elimination that subtracts \<open>0\<close> times row \<open>i\<close> from every row below
  it. Each of them carries \<open>a\<close> or no matrix; none is built by \<open>exp_swap\<close>.
\<close>

definition idle_frame :: "'e helpers \<Rightarrow> bool \<Rightarrow> matrix \<Rightarrow> 'e frame \<Rightarrow> bool" where
  "idle_frame h pl a f \<longleftrightarrow>
     f = (Some a, None) \<or> f = (None, Some []) \<or> f = (Some a, Some []) \<or>
     list_ex (\<lambda>i. f = (Some a, Some [(i, exp_divide h 1 pl)]) \<or>
                  f = (Some a, Some (map (\<lambda>k. (k, exp_minus h 0 i pl)) [i + 1..<length a])))
       [0..<length a]"

text \<open>
  The columns a run goes through. \<open>pivots\<close> is the recursion of \<open>gauss\<close> with the frames
  left out: it follows the same tests and the same two recursive calls, on the same
  matrices, and records one mark for each column a call settles, in the order of the
  calls: \<open>False\<close> when the call takes the \<open>else\<close> clause of its search loop (the pivot
  entry is zero and so is every entry below it: the column is skipped and the call
  recurses on the next column), \<open>True\<close> when the call runs its normalization and its
  elimination on a pivot found in place or swapped in. So
  \<open>count_list (pivots h a 0 0 pl) False\<close> is the number of columns the run skips and
  \<open>count_list (pivots h a 0 0 pl) True\<close> the number of its rounds.
\<close>

function pivots :: "'e helpers \<Rightarrow> matrix \<Rightarrow> nat \<Rightarrow> nat \<Rightarrow> bool \<Rightarrow> bool list" where
  "pivots h a i j pl =
     (if a = [] then []
      else if i = length a \<or> j = length (a ! 0) then []
      else
        (case cell a i j of
           Inl e \<Rightarrow> []
         | Inr p \<Rightarrow>
            (case (if p = 0 then
                     (case find_row a j [i + 1 ..< length a] of
                        Inl e \<Rightarrow> ([], Inl e)
                      | Inr (Some r) \<Rightarrow> ([], Inr (swap_rows a i r))
                      | Inr None \<Rightarrow>
                          (False # pivots h a i (j + 1) pl, snd (gauss h a i (j + 1) pl)))
                   else ([], Inr a)) of
               (ps1, Inl e) \<Rightarrow> ps1
             | (ps1, Inr a1) \<Rightarrow>
                (case normalize_row a1 i j of
                   Inl e \<Rightarrow> ps1
                 | Inr (a2, divisor) \<Rightarrow>
                    (case eliminate h pl i j [i + 1 ..< length a] (a2, []) of
                       Inl e \<Rightarrow> ps1
                     | Inr (a3, explanations) \<Rightarrow>
                         ps1 @ True # pivots h a3 (i + 1) (j + 1) pl)))))"
  by pat_completeness auto

text \<open>
  The two frames of a round on row \<open>i\<close> that leaves the matrix \<open>a\<close> as it is: the frame
  of the division of row \<open>i\<close> by \<open>1\<close>, then the frame of the elimination that subtracts
  \<open>0\<close> times row \<open>i\<close> from every row below it.
\<close>

definition settled_round :: "'e helpers \<Rightarrow> bool \<Rightarrow> matrix \<Rightarrow> nat \<Rightarrow> 'e frame list" where
  "settled_round h pl a i =
     [(Some a, Some [(i, exp_divide h 1 pl)]),
      (Some a, Some (map (\<lambda>k. (k, exp_minus h 0 i pl)) [i + 1 ..< length a]))]"

section \<open>Termination\<close>

text \<open>
  The recursion on the next row starts from the matrix the recursion on the next column
  left behind, so termination needs that a call never changes the number of rows.
\<close>

lemma eliminate_length:
  "eliminate h pl i j ks (a, ex) = Inr (a', ex') \<Longrightarrow> length a' = length a"
  by (induction ks arbitrary: a ex) (auto split: sum.splits)

lemma normalize_row_length: "normalize_row a i j = Inr (a', d) \<Longrightarrow> length a' = length a"
  by (auto simp: normalize_row_def split: sum.splits if_splits)

lemma swap_rows_length: "length (swap_rows a i r) = length a"
  by (simp add: swap_rows_def)

lemma gauss_dom_length:
  "gauss_dom (h, a, i, j, pl) \<Longrightarrow> gauss h a i j pl = (fs, Inr a') \<Longrightarrow> length a' = length a"
proof (induction h a i j pl arbitrary: fs a' rule: gauss.pinduct)
  case (1 h a i j pl)
  note eq = gauss.psimps[OF "1.hyps"]
  note res = "1.prems"
  show ?case
  proof (cases "a = [] \<or> i = length a \<or> j = length (a ! 0)")
    case True
    with res show ?thesis by (auto simp: eq Let_def split: if_splits)
  next
    case False
    then have ne: "a \<noteq> []" and nb: "\<not> (i = length a \<or> j = length (a ! 0))" by auto
    from res ne nb obtain p where p: "cell a i j = Inr p"
      by (cases "cell a i j") (auto simp: eq Let_def)
    let ?ph = "if p = 0
         then case find_row a j [i + 1..<length a] of Inl e \<Rightarrow> ([], Inl e)
              | Inr None \<Rightarrow> gauss h a i (j + 1) pl
              | Inr (Some r) \<Rightarrow>
                  ([(Some (swap_rows a i r), Some [(i, exp_swap h i r pl)])],
                   Inr (swap_rows a i r))
         else ([], Inr a)"
    obtain fs1 r1 where ph: "?ph = (fs1, r1)" by (cases ?ph)
    from res ne nb p ph obtain a1 where r1: "r1 = Inr a1"
      by (cases r1) (auto simp: eq Let_def)
    have len1: "length a1 = length a"
    proof (cases "p = 0")
      case False
      with ph r1 show ?thesis by simp
    next
      case True
      show ?thesis
      proof (cases "find_row a j [i + 1..<length a]")
        case (Inl e)
        with ph r1 True show ?thesis by simp
      next
        case (Inr ro)
        show ?thesis
        proof (cases ro)
          case None
          with ph r1 True Inr have "gauss h a i (j + 1) pl = (fs1, Inr a1)" by simp
          from "1.IH"(1)[OF refl ne nb p True Inr None this] show ?thesis .
        next
          case (Some r)
          with ph r1 True Inr show ?thesis by (auto simp: swap_rows_length)
        qed
      qed
    qed
    show ?thesis
    proof (cases "normalize_row a1 i j")
      case (Inl e)
      with res ne nb p ph r1 have "a' = a1" by (cases e) (auto simp: eq Let_def)
      with len1 show ?thesis by simp
    next
      case (Inr x)
      obtain a2 d where x: "x = (a2, d)" by (cases x)
      show ?thesis
      proof (cases "eliminate h pl i j [i + 1..<length a] (a2, [])")
        case (Inl e)
        with res ne nb p ph r1 Inr x show ?thesis by (auto simp: eq Let_def)
      next
        case el: (Inr y)
        obtain a3 ex where y: "y = (a3, ex)" by (cases y)
        obtain fs4 r4 where g4: "gauss h a3 (i + 1) (j + 1) pl = (fs4, r4)"
          by (cases "gauss h a3 (i + 1) (j + 1) pl")
        with res ne nb p ph r1 Inr x el y have "r4 = Inr a'" by (auto simp: eq Let_def)
        with g4 have g4': "gauss h a3 (i + 1) (j + 1) pl = (fs4, Inr a')" by simp
        have "length a' = length a3"
          using "1.IH"(2)[OF refl ne nb p ph[symmetric] r1 Inr x[symmetric] el y[symmetric] g4'] .
        with el y Inr x len1 show ?thesis
          by (simp add: eliminate_length[of h pl i j _ a2 "[]" a3 ex] normalize_row_length[of a1 i j a2 d])
      qed
    qed
  qed
qed

termination gauss
proof (relation "measures [\<lambda>(h, a, i, j, pl). length a - i, \<lambda>(h, a, i, j, pl). length (a ! i) - j]", goal_cases)
  case 1
  show ?case by simp
next
  case (2 h a i j pl x b ba)
  then show ?case by (auto simp: cell_def split: if_splits)
next
  case (3 h a i j pl fs0 p fs1 r1 a1 x a2 d y a3 ex)
  have i: "i < length a" using \<open>cell a i j = Inr p\<close> by (auto simp: cell_def split: if_splits)
  have "length a1 = length a"
  proof (cases "p = 0")
    case False
    with 3(5,6) show ?thesis by simp
  next
    case True
    show ?thesis
    proof (cases "find_row a j [i + 1..<length a]")
      case (Inl e)
      with 3(5,6) True show ?thesis by simp
    next
      case (Inr ro)
      show ?thesis
      proof (cases ro)
        case None
        with 3(5,6) True Inr have "gauss h a i (j + 1) pl = (fs1, Inr a1)" by simp
        moreover have "gauss_dom (h, a, i, j + 1, pl)" using 3(11)[OF True Inr None] .
        ultimately show ?thesis by (rule gauss_dom_length[rotated])
      next
        case (Some r)
        with 3(5,6) True Inr show ?thesis by (auto simp: swap_rows_length)
      qed
    qed
  qed
  moreover have "length a2 = length a1"
    using 3(7,8) by (auto dest: normalize_row_length)
  moreover have "length a3 = length a2"
    using 3(9,10) by (auto dest: eliminate_length)
  ultimately show ?case using i by (simp add: diff_less_mono2)
qed

declare gauss.simps [simp del]

text \<open>
  Now that \<open>gauss\<close> is total, the same holds of every call.
\<close>

lemma gauss_length: "gauss h a i j pl = (fs, Inr a') \<Longrightarrow> length a' = length a"
proof (induction h a i j pl arbitrary: fs a' rule: gauss.induct)
  case (1 h a i j pl)
  note eq = gauss.simps[of h a i j pl]
  note res = "1.prems"
  show ?case
  proof (cases "a = [] \<or> i = length a \<or> j = length (a ! 0)")
    case True
    with res show ?thesis by (auto simp: eq Let_def split: if_splits)
  next
    case False
    then have ne: "a \<noteq> []" and nb: "\<not> (i = length a \<or> j = length (a ! 0))" by auto
    from res ne nb obtain p where p: "cell a i j = Inr p"
      by (cases "cell a i j") (auto simp: eq Let_def)
    let ?ph = "if p = 0
         then case find_row a j [i + 1..<length a] of Inl e \<Rightarrow> ([], Inl e)
              | Inr None \<Rightarrow> gauss h a i (j + 1) pl
              | Inr (Some r) \<Rightarrow>
                  ([(Some (swap_rows a i r), Some [(i, exp_swap h i r pl)])],
                   Inr (swap_rows a i r))
         else ([], Inr a)"
    obtain fs1 r1 where ph: "?ph = (fs1, r1)" by (cases ?ph)
    from res ne nb p ph obtain a1 where r1: "r1 = Inr a1"
      by (cases r1) (auto simp: eq Let_def)
    have len1: "length a1 = length a"
    proof (cases "p = 0")
      case False
      with ph r1 show ?thesis by simp
    next
      case True
      show ?thesis
      proof (cases "find_row a j [i + 1..<length a]")
        case (Inl e)
        with ph r1 True show ?thesis by simp
      next
        case (Inr ro)
        show ?thesis
        proof (cases ro)
          case None
          with ph r1 True Inr have "gauss h a i (j + 1) pl = (fs1, Inr a1)" by simp
          from "1.IH"(1)[OF refl ne nb p True Inr None this] show ?thesis .
        next
          case (Some r)
          with ph r1 True Inr show ?thesis by (auto simp: swap_rows_length)
        qed
      qed
    qed
    show ?thesis
    proof (cases "normalize_row a1 i j")
      case (Inl e)
      with res ne nb p ph r1 have "a' = a1" by (cases e) (auto simp: eq Let_def)
      with len1 show ?thesis by simp
    next
      case (Inr x)
      obtain a2 d where x: "x = (a2, d)" by (cases x)
      show ?thesis
      proof (cases "eliminate h pl i j [i + 1..<length a] (a2, [])")
        case (Inl e)
        with res ne nb p ph r1 Inr x show ?thesis by (auto simp: eq Let_def)
      next
        case el: (Inr y)
        obtain a3 ex where y: "y = (a3, ex)" by (cases y)
        obtain fs4 r4 where g4: "gauss h a3 (i + 1) (j + 1) pl = (fs4, r4)"
          by (cases "gauss h a3 (i + 1) (j + 1) pl")
        with res ne nb p ph r1 Inr x el y have "r4 = Inr a'" by (auto simp: eq Let_def)
        with g4 have g4': "gauss h a3 (i + 1) (j + 1) pl = (fs4, Inr a')" by simp
        have "length a' = length a3"
          using "1.IH"(2)[OF refl ne nb p ph[symmetric] r1 Inr x[symmetric] el y[symmetric] g4'] .
        with el y Inr x len1 show ?thesis
          by (simp add: eliminate_length[of h pl i j _ a2 "[]" a3 ex] normalize_row_length[of a1 i j a2 d])
      qed
    qed
  qed
qed

text \<open>
  \<open>pivots\<close> recurses as \<open>gauss\<close> does, so it terminates by the same measure.
\<close>

termination pivots
proof (relation "measures [\<lambda>(h, a, i, j, pl). length a - i, \<lambda>(h, a, i, j, pl). length (a ! i) - j]", goal_cases)
  case 1
  show ?case by simp
next
  case (2 h a i j pl p ro)
  then show ?case by (auto simp: cell_def split: if_splits)
next
  case (3 h a i j pl p ps1 r1 a1 y a2 d z a3 ex)
  have i: "i < length a" using \<open>cell a i j = Inr p\<close> by (auto simp: cell_def split: if_splits)
  have "length a1 = length a"
  proof (cases "p = 0")
    case False
    with 3(4,5) show ?thesis by simp
  next
    case True
    show ?thesis
    proof (cases "find_row a j [i + 1..<length a]")
      case (Inl e)
      with 3(4,5) True show ?thesis by simp
    next
      case (Inr ro)
      show ?thesis
      proof (cases ro)
        case None
        with 3(4,5) True Inr have "snd (gauss h a i (j + 1) pl) = Inr a1" by simp
        then have "gauss h a i (j + 1) pl = (fst (gauss h a i (j + 1) pl), Inr a1)"
          by (metis prod.collapse)
        then show ?thesis by (rule gauss_length)
      next
        case (Some r)
        with 3(4,5) True Inr show ?thesis by (auto simp: swap_rows_length)
      qed
    qed
  qed
  moreover have "length a2 = length a1"
    using 3(6,7) by (auto dest: normalize_row_length)
  moreover have "length a3 = length a2"
    using 3(8,9) by (auto dest: eliminate_length)
  ultimately show ?case using i by (simp add: diff_less_mono2)
qed

declare pivots.simps [simp del]

section \<open>The row operations on a rectangular matrix\<close>

lemma rect_nth: "rect n a \<Longrightarrow> r < length a \<Longrightarrow> length (a ! r) = n"
  by (simp add: rect_def list_all_length)

lemma rect_update: "rect n a \<Longrightarrow> length row = n \<Longrightarrow> rect n (a[k := row])"
  unfolding rect_def list_all_length
proof (intro allI impI)
  fix r
  assume a: "\<forall>r<length a. length (a ! r) = n" and row: "length row = n" and r: "r < length (a[k := row])"
  show "length (a[k := row] ! r) = n"
    using a row r by (cases "k = r") auto
qed

lemma check_matrix_rect: "check_matrix a = Inr () \<longleftrightarrow> a \<noteq> [] \<and> rect (length (a ! 0)) a"
  by (simp add: check_matrix_def rect_def)

lemma cell_rect: "rect n a \<Longrightarrow> i < length a \<Longrightarrow> j < n \<Longrightarrow> cell a i j = Inr (a ! i ! j)"
  by (simp add: cell_def rect_nth)

lemma swap_rows_rect: "rect n a \<Longrightarrow> i < length a \<Longrightarrow> r < length a \<Longrightarrow> rect n (swap_rows a i r)"
  by (simp add: swap_rows_def rect_update rect_nth)

lemma swap_rows_nth:
  "i < length a \<Longrightarrow> r < length a \<Longrightarrow> k < length a \<Longrightarrow>
   swap_rows a i r ! k = (if k = i then a ! r else if k = r then a ! i else a ! k)"
  by (auto simp: swap_rows_def nth_list_update)

lemma find_row_append:
  "\<forall>r\<in>set pre. cell a r j = Inr 0 \<Longrightarrow> find_row a j (pre @ rs) = find_row a j rs"
  by (induction pre) auto

lemma find_row_None:
  "rect n a \<Longrightarrow> j < n \<Longrightarrow> \<forall>r\<in>set rs. r < length a \<Longrightarrow>
   find_row a j rs = Inr None \<longleftrightarrow> (\<forall>r\<in>set rs. a ! r ! j = 0)"
  by (induction rs) (auto simp: cell_rect)

lemma find_row_no_error:
  "rect n a \<Longrightarrow> j < n \<Longrightarrow> \<forall>r\<in>set rs. r < length a \<Longrightarrow> find_row a j rs \<noteq> Inl e"
  by (induction rs) (auto simp: cell_rect)

lemma upt_split: "lo \<le> r \<Longrightarrow> r < hi \<Longrightarrow> [lo..<hi] = [lo..<r] @ r # [Suc r..<hi]"
  by (metis less_imp_le_nat upt_add_eq_append le_Suc_ex upt_conv_Cons)

lemma find_row_range_SomeD:
  assumes "rect n a" "j < n" "hi \<le> length a"
  shows "find_row a j [lo..<hi] = Inr (Some r) \<Longrightarrow>
         lo \<le> r \<and> r < hi \<and> a ! r ! j \<noteq> 0 \<and> (\<forall>r'. lo \<le> r' \<and> r' < r \<longrightarrow> a ! r' ! j = 0)"
proof (induction "hi - lo" arbitrary: lo)
  case 0
  then show ?case by simp
next
  case (Suc d)
  then have lo: "lo < hi" and up: "[lo..<hi] = lo # [Suc lo..<hi]" by (auto simp: upt_conv_Cons)
  have c: "cell a lo j = Inr (a ! lo ! j)" using assms lo by (simp add: cell_rect)
  show ?case
  proof (cases "a ! lo ! j = 0")
    case True
    with Suc.prems up c have "find_row a j [Suc lo..<hi] = Inr (Some r)" by simp
    moreover have "d = hi - Suc lo" using Suc.hyps(2) by simp
    ultimately have "Suc lo \<le> r \<and> r < hi \<and> a ! r ! j \<noteq> 0 \<and>
        (\<forall>r'. Suc lo \<le> r' \<and> r' < r \<longrightarrow> a ! r' ! j = 0)"
      using Suc.hyps(1) by blast
    with True show ?thesis
      by (metis Suc_leD Suc_leI le_neq_implies_less)
  next
    case False
    with Suc.prems up c have "r = lo" by simp
    with False lo show ?thesis by simp
  qed
qed

lemma find_row_range_SomeI:
  assumes "rect n a" "j < n" "hi \<le> length a"
    and r: "lo \<le> r" "r < hi" "a ! r ! j \<noteq> 0" "\<forall>r'. lo \<le> r' \<and> r' < r \<longrightarrow> a ! r' ! j = 0"
  shows "find_row a j [lo..<hi] = Inr (Some r)"
proof -
  have "\<forall>r'\<in>set [lo..<r]. cell a r' j = Inr 0"
    using assms by (auto simp: cell_rect)
  then have "find_row a j ([lo..<r] @ r # [Suc r..<hi]) = find_row a j (r # [Suc r..<hi])"
    by (rule find_row_append)
  with r assms show "find_row a j [lo..<hi] = Inr (Some r)"
    by (simp add: upt_split[of lo r hi] cell_rect)
qed

lemma find_row_range_None:
  assumes "rect n a" "j < n" "hi \<le> length a"
  shows "find_row a j [lo..<hi] = Inr None \<longleftrightarrow> (\<forall>r. lo \<le> r \<and> r < hi \<longrightarrow> a ! r ! j = 0)"
proof -
  have "\<forall>r\<in>set [lo..<hi]. r < length a" using assms by auto
  from find_row_None[OF assms(1,2) this] show ?thesis by auto
qed

lemma normalize_row_rect:
  "rect n a \<Longrightarrow> i < length a \<Longrightarrow> j < n \<Longrightarrow>
   normalize_row a i j =
     (if a ! i ! j = 0 then Inl ZeroDivisionError
      else Inr (a[i := map (\<lambda>coeff. coeff / (a ! i ! j)) (a ! i)], a ! i ! j))"
  by (simp add: normalize_row_def cell_rect)

lemma eliminate_rect:
  assumes "rect n a" "i < length a" "j < n" "\<forall>k\<in>set ks. k < length a" "i \<notin> set ks" "distinct ks"
  shows "\<exists>a'. eliminate h pl i j ks (a, ex) =
            Inr (a', ex @ map (\<lambda>k. (k, exp_minus h (a ! k ! j) i pl)) ks) \<and>
          rect n a' \<and> length a' = length a \<and>
          (\<forall>r. r \<notin> set ks \<longrightarrow> a' ! r = a ! r) \<and>
          (\<forall>k\<in>set ks. a' ! k =
             map (\<lambda>(coeff_k, coeff_i). coeff_k - a ! k ! j * coeff_i) (zip (a ! k) (a ! i)))"
  using assms
proof (induction ks arbitrary: a ex)
  case Nil
  then show ?case by simp
next
  case (Cons k ks)
  let ?row = "map (\<lambda>(coeff_k, coeff_i). coeff_k - a ! k ! j * coeff_i) (zip (a ! k) (a ! i))"
  let ?a1 = "a[k := ?row]"
  from Cons.prems have k: "k < length a" "k \<noteq> i" "k \<notin> set ks" by auto
  have "length ?row = n" using Cons.prems k by (simp add: rect_nth)
  with Cons.prems have r1: "rect n ?a1" by (simp add: rect_update)
  have same: "?a1 ! r = a ! r" if "r \<noteq> k" for r using that by simp
  have pre: "i < length ?a1" "\<forall>k\<in>set ks. k < length ?a1" "i \<notin> set ks" "distinct ks"
    using Cons.prems by auto
  from Cons.IH[OF r1 pre(1) \<open>j < n\<close> pre(2,3,4), of "ex @ [(k, exp_minus h (a ! k ! j) i pl)]"]
  obtain a' where a':
    "eliminate h pl i j ks (?a1, ex @ [(k, exp_minus h (a ! k ! j) i pl)]) =
       Inr (a', (ex @ [(k, exp_minus h (a ! k ! j) i pl)]) @
                map (\<lambda>k. (k, exp_minus h (?a1 ! k ! j) i pl)) ks)"
    "rect n a'" "length a' = length ?a1"
    "\<forall>r. r \<notin> set ks \<longrightarrow> a' ! r = ?a1 ! r"
    "\<forall>k\<in>set ks. a' ! k =
       map (\<lambda>(coeff_k, coeff_i). coeff_k - ?a1 ! k ! j * coeff_i) (zip (?a1 ! k) (?a1 ! i))"
    by blast
  have m: "map (\<lambda>k. (k, exp_minus h (?a1 ! k ! j) i pl)) ks =
           map (\<lambda>k. (k, exp_minus h (a ! k ! j) i pl)) ks"
  proof (intro map_cong refl)
    fix x assume "x \<in> set ks"
    with k(3) have "x \<noteq> k" by auto
    then show "(x, exp_minus h (?a1 ! x ! j) i pl) = (x, exp_minus h (a ! x ! j) i pl)"
      by simp
  qed
  have "eliminate h pl i j (k # ks) (a, ex) =
          Inr (a', ex @ map (\<lambda>k. (k, exp_minus h (a ! k ! j) i pl)) (k # ks))"
    using a'(1) Cons.prems k by (simp add: cell_rect m)
  moreover have "\<forall>r. r \<notin> set (k # ks) \<longrightarrow> a' ! r = a ! r"
    using a'(4) by simp
  moreover have "\<forall>k'\<in>set (k # ks). a' ! k' =
       map (\<lambda>(coeff_k, coeff_i). coeff_k - a ! k' ! j * coeff_i) (zip (a ! k') (a ! i))"
  proof
    fix k' assume "k' \<in> set (k # ks)"
    then consider "k' = k" | "k' \<in> set ks" "k' \<noteq> k" using k(3) by auto
    then show "a' ! k' =
       map (\<lambda>(coeff_k, coeff_i). coeff_k - a ! k' ! j * coeff_i) (zip (a ! k') (a ! i))"
    proof cases
      case 1
      with a'(4) k show ?thesis by simp
    next
      case 2
      with a'(5) k show ?thesis by simp
    qed
  qed
  ultimately show ?case using a'(2,3) by auto
qed

lemma eliminate_range:
  assumes "rect n a" "i < length a" "j < n"
  shows "\<exists>a3. eliminate h pl i j [i + 1..<length a] (a, []) =
            Inr (a3, map (\<lambda>k. (k, exp_minus h (a ! k ! j) i pl)) [i + 1..<length a]) \<and>
          rect n a3 \<and> length a3 = length a \<and> (\<forall>r\<le>i. a3 ! r = a ! r) \<and>
          (\<forall>k c. i < k \<and> k < length a \<and> c < n \<longrightarrow>
             a3 ! k ! c = a ! k ! c - a ! k ! j * a ! i ! c)"
proof -
  have "\<forall>k\<in>set [i + 1..<length a]. k < length a" "i \<notin> set [i + 1..<length a]"
       "distinct [i + 1..<length a]" by auto
  from eliminate_rect[OF assms this, of h pl "[]"] obtain a3 where a3:
    "eliminate h pl i j [i + 1..<length a] (a, []) =
       Inr (a3, map (\<lambda>k. (k, exp_minus h (a ! k ! j) i pl)) [i + 1..<length a])"
    "rect n a3" "length a3 = length a"
    "\<forall>r. r \<notin> set [i + 1..<length a] \<longrightarrow> a3 ! r = a ! r"
    "\<forall>k\<in>set [i + 1..<length a]. a3 ! k =
       map (\<lambda>(coeff_k, coeff_i). coeff_k - a ! k ! j * coeff_i) (zip (a ! k) (a ! i))"
    by auto
  have "a3 ! k ! c = a ! k ! c - a ! k ! j * a ! i ! c" if "i < k" "k < length a" "c < n" for k c
  proof -
    from that have "k \<in> set [i + 1..<length a]" by simp
    with a3(5) have "a3 ! k =
       map (\<lambda>(coeff_k, coeff_i). coeff_k - a ! k ! j * coeff_i) (zip (a ! k) (a ! i))" by blast
    moreover have "length (a ! k) = n" "length (a ! i) = n"
      using assms that by (simp_all add: rect_nth)
    ultimately show ?thesis using that by simp
  qed
  moreover have "\<forall>r\<le>i. a3 ! r = a ! r" using a3(4) by simp
  ultimately show ?thesis using a3(1,2,3) by blast
qed

lemma below_only_refl: "rect n a \<Longrightarrow> below_only n i a a"
  by (simp add: below_only_def)

lemma below_only_trans: "below_only n i a b \<Longrightarrow> below_only n i b c \<Longrightarrow> below_only n i a c"
  unfolding below_only_def by (elim conjE, intro conjI) simp_all

lemma below_only_Suc: "below_only n (Suc i) a b \<Longrightarrow> below_only n i a b"
  unfolding below_only_def
proof (elim conjE, intro conjI allI impI)
  fix c r
  assume b: "\<forall>r<Suc i. b ! r = a ! r"
    and z: "\<forall>c<n. (\<forall>r. Suc i \<le> r \<and> r < length a \<longrightarrow> a ! r ! c = 0) \<longrightarrow>
              (\<forall>r. Suc i \<le> r \<and> r < length a \<longrightarrow> b ! r ! c = 0)"
    and c: "c < n" and a: "\<forall>r. i \<le> r \<and> r < length a \<longrightarrow> a ! r ! c = 0"
    and r: "i \<le> r \<and> r < length a"
  show "b ! r ! c = 0"
  proof (cases "r = i")
    case True
    with b a r show ?thesis by simp
  next
    case False
    with r have "Suc i \<le> r \<and> r < length a" by simp
    moreover from a have "\<forall>r. Suc i \<le> r \<and> r < length a \<longrightarrow> a ! r ! c = 0" by simp
    ultimately show ?thesis using z c by blast
  qed
qed simp_all

lemma below_only_swap:
  assumes "rect n a" "i < r" "r < length a"
  shows "below_only n i a (swap_rows a i r)"
  unfolding below_only_def
proof (intro conjI allI impI)
  show "rect n (swap_rows a i r)" using assms by (simp add: swap_rows_rect)
  show "length (swap_rows a i r) = length a" by (simp add: swap_rows_length)
next
  fix k assume "k < i"
  with assms show "swap_rows a i r ! k = a ! k" by (simp add: swap_rows_nth)
next
  fix c k
  assume "\<forall>r. i \<le> r \<and> r < length a \<longrightarrow> a ! r ! c = 0" "i \<le> k \<and> k < length a"
  with assms show "swap_rows a i r ! k ! c = 0" by (simp add: swap_rows_nth)
qed

lemma below_only_normalize:
  assumes "rect n a" "i < length a"
  shows "below_only n i a (a[i := map (\<lambda>coeff. coeff / d) (a ! i)])"
  unfolding below_only_def
proof (intro conjI allI impI)
  show "rect n (a[i := map (\<lambda>coeff. coeff / d) (a ! i)])"
    using assms by (simp add: rect_update rect_nth)
  show "length (a[i := map (\<lambda>coeff. coeff / d) (a ! i)]) = length a" by simp
next
  fix k assume "k < i"
  then show "a[i := map (\<lambda>coeff. coeff / d) (a ! i)] ! k = a ! k" by simp
next
  fix c k
  assume c: "c < n" and z: "\<forall>r. i \<le> r \<and> r < length a \<longrightarrow> a ! r ! c = 0" and k: "i \<le> k \<and> k < length a"
  show "a[i := map (\<lambda>coeff. coeff / d) (a ! i)] ! k ! c = 0"
  proof (cases "k = i")
    case True
    with assms c z show ?thesis by (simp add: rect_nth)
  next
    case False
    with z k show ?thesis by simp
  qed
qed

lemma below_only_eliminate:
  assumes "rect n a3" "length a3 = length a2" "i < length a2" "\<forall>r\<le>i. a3 ! r = a2 ! r"
    "\<forall>k c. i < k \<and> k < length a2 \<and> c < n \<longrightarrow> a3 ! k ! c = a2 ! k ! c - a2 ! k ! j * a2 ! i ! c"
  shows "below_only n i a2 a3"
  unfolding below_only_def
proof (intro conjI allI impI)
  show "rect n a3" "length a3 = length a2" by fact+
next
  fix k assume "k < i"
  with assms(4) show "a3 ! k = a2 ! k" by simp
next
  fix c k
  assume c: "c < n" and z: "\<forall>r. i \<le> r \<and> r < length a2 \<longrightarrow> a2 ! r ! c = 0" and k: "i \<le> k \<and> k < length a2"
  show "a3 ! k ! c = 0"
  proof (cases "k = i")
    case True
    with assms(3,4) z show ?thesis by simp
  next
    case False
    with k c assms(5) have "a3 ! k ! c = a2 ! k ! c - a2 ! k ! j * a2 ! i ! c" by simp
    with z k assms(3) show ?thesis by simp
  qed
qed

section \<open>Induction over the calls on a rectangular matrix\<close>

text \<open>
  On a rectangular matrix no index is out of range, and a call is one of three kinds:
  it yields the sentinel (\<open>Boundary\<close>), it skips a column that is zero from the pivot
  row on (\<open>Skip\<close>), or it runs a round on a pivot found in place or swapped in
  (\<open>Round\<close>). The rule below proves a property of every call from these three cases,
  and gives the result of the call along with it.
\<close>

lemma gauss_rect_induct [consumes 4, case_names Boundary Skip Round]:
  fixes h :: "'e helpers" and P :: "matrix \<Rightarrow> nat \<Rightarrow> nat \<Rightarrow> bool"
  assumes valid: "rect n a0" "a0 \<noteq> []" "i0 \<le> length a0" "j0 \<le> n"
    and Boundary: "\<And>a i j. \<lbrakk>rect n a; a \<noteq> []; i \<le> length a; j \<le> n; i = length a \<or> j = n;
      gauss h a i j pl = (initial_frame a i j @ [(None, Some [])], Inr a)\<rbrakk> \<Longrightarrow> P a i j"
    and Skip: "\<And>a i j fs1 a1. \<lbrakk>rect n a; i < length a; j < n; a ! i ! j = 0;
      \<forall>r. i < r \<and> r < length a \<longrightarrow> a ! r ! j = 0;
      gauss h a i (j + 1) pl = (fs1, Inr a1); below_only n i a a1; a1 ! i ! j = 0; P a i (j + 1);
      gauss h a i j pl = (initial_frame a i j @ fs1 @ [(Some a1, Some [])], Inr a1)\<rbrakk> \<Longrightarrow> P a i j"
    and Round: "\<And>a i j fs1 a1 a2 a3 fs4 a'. \<lbrakk>rect n a; i < length a; j < n;
      a ! i ! j \<noteq> 0 \<and> fs1 = [] \<and> a1 = a \<or>
      a ! i ! j = 0 \<and> (\<exists>r. i < r \<and> r < length a \<and> a ! r ! j \<noteq> 0 \<and>
         (\<forall>r'. i < r' \<and> r' < r \<longrightarrow> a ! r' ! j = 0) \<and> a1 = swap_rows a i r \<and>
         fs1 = [(Some a1, Some [(i, exp_swap h i r pl)])]);
      rect n a1; length a1 = length a; a1 ! i ! j \<noteq> 0;
      a2 = a1[i := map (\<lambda>coeff. coeff / (a1 ! i ! j)) (a1 ! i)];
      eliminate h pl i j [i + 1..<length a] (a2, []) =
        Inr (a3, map (\<lambda>k. (k, exp_minus h (a2 ! k ! j) i pl)) [i + 1..<length a]);
      rect n a3; length a3 = length a; \<forall>r\<le>i. a3 ! r = a2 ! r;
      \<forall>k c. i < k \<and> k < length a \<and> c < n \<longrightarrow> a3 ! k ! c = a2 ! k ! c - a2 ! k ! j * a2 ! i ! c;
      gauss h a3 (i + 1) (j + 1) pl = (fs4, Inr a'); below_only n (i + 1) a3 a';
      P a3 (i + 1) (j + 1);
      gauss h a i j pl =
        (initial_frame a i j @ fs1 @
         [(Some a2, Some [(i, exp_divide h (a1 ! i ! j) pl)]),
          (Some a3, Some (map (\<lambda>k. (k, exp_minus h (a2 ! k ! j) i pl)) [i + 1..<length a]))] @ fs4,
         Inr a')\<rbrakk> \<Longrightarrow> P a i j"
  shows "P a0 i0 j0"
proof -
  have "hh = h \<Longrightarrow> pp = pl \<Longrightarrow> rect n a \<Longrightarrow> a \<noteq> [] \<Longrightarrow> i \<le> length a \<Longrightarrow> j \<le> n \<Longrightarrow>
         P a i j \<and> (\<exists>fs a'. gauss hh a i j pp = (fs, Inr a') \<and> below_only n i a a')" for hh pp a i j
  proof (induction hh a i j pp rule: gauss.induct)
  case (1 hh a i j pp)
  note hp = \<open>hh = h\<close> \<open>pp = pl\<close>
  note IH1 = "1.IH"(1)[unfolded hp] and IH2 = "1.IH"(2)[unfolded hp]
  note rect = \<open>rect n a\<close> and ne = \<open>a \<noteq> []\<close> and i = \<open>i \<le> length a\<close> and j = \<open>j \<le> n\<close>
  from rect ne have n: "length (a ! 0) = n" by (simp add: rect_nth)
  have "P a i j \<and> (\<exists>fs a'. gauss h a i j pl = (fs, Inr a') \<and> below_only n i a a')"
  proof (cases "i = length a \<or> j = n")
    case True
    then have g: "gauss h a i j pl = (initial_frame a i j @ [(None, Some [])], Inr a)"
      using ne n by (subst gauss.simps) (simp add: Let_def)
    from Boundary[OF rect ne i j True g] g rect show ?thesis
      by (simp add: below_only_refl)
  next
    case False
    with i j have i': "i < length a" and j': "j < n" by auto
    from False n have nb: "\<not> (i = length a \<or> j = length (a ! 0))" by simp
    have c: "cell a i j = Inr (a ! i ! j)" using rect i' j' by (rule cell_rect)
    let ?m = "length a"
    have round: "P a i j \<and> (\<exists>fs a'. gauss h a i j pl = (fs, Inr a') \<and> below_only n i a a')"
      if d: "a ! i ! j \<noteq> 0 \<and> fs1 = [] \<and> a1 = a \<or>
             a ! i ! j = 0 \<and> (\<exists>r. i < r \<and> r < length a \<and> a ! r ! j \<noteq> 0 \<and>
               (\<forall>r'. i < r' \<and> r' < r \<longrightarrow> a ! r' ! j = 0) \<and> a1 = swap_rows a i r \<and>
               fs1 = [(Some a1, Some [(i, exp_swap h i r pl)])])"
        and r1: "rect n a1" and l1: "length a1 = length a" and p1: "a1 ! i ! j \<noteq> 0"
        and b1: "below_only n i a a1"
      for fs1 a1
    proof -
      have ph: "(if a ! i ! j = 0
         then case find_row a j [i + 1..<length a] of Inl e \<Rightarrow> ([], Inl e)
              | Inr None \<Rightarrow> gauss h a i (j + 1) pl
              | Inr (Some r) \<Rightarrow>
                  ([(Some (swap_rows a i r), Some [(i, exp_swap h i r pl)])],
                   Inr (swap_rows a i r))
         else ([], Inr a)) = (fs1, Inr a1)"
      proof (cases "a ! i ! j = 0")
        case False
        with d show ?thesis by simp
      next
        case True
        with d obtain r where r: "i < r" "r < length a" "a ! r ! j \<noteq> 0"
          "\<forall>r'. i < r' \<and> r' < r \<longrightarrow> a ! r' ! j = 0" "a1 = swap_rows a i r"
          "fs1 = [(Some a1, Some [(i, exp_swap h i r pl)])]" by blast
        have "find_row a j [i + 1..<length a] = Inr (Some r)"
          using r by (intro find_row_range_SomeI[OF rect j']) auto
        with True r show ?thesis by simp
      qed
      define a2 where "a2 = a1[i := map (\<lambda>coeff. coeff / (a1 ! i ! j)) (a1 ! i)]"
      have nr: "normalize_row a1 i j = Inr (a2, a1 ! i ! j)"
        using r1 i' j' l1 p1 by (simp add: normalize_row_rect a2_def)
      have r2: "rect n a2" and l2: "length a2 = length a"
        using r1 l1 i' by (simp_all add: a2_def rect_update rect_nth)
      have b2: "below_only n i a1 a2"
        unfolding a2_def using r1 i' l1 by (intro below_only_normalize) simp_all
      from eliminate_range[OF r2, of i j h pl] i' j' l2 obtain a3 where
        el: "eliminate h pl i j [i + 1..<length a] (a2, []) =
               Inr (a3, map (\<lambda>k. (k, exp_minus h (a2 ! k ! j) i pl)) [i + 1..<length a])"
        and r3: "rect n a3" and l3: "length a3 = length a" and u3: "\<forall>r\<le>i. a3 ! r = a2 ! r"
        and e3: "\<forall>k c. i < k \<and> k < length a \<and> c < n \<longrightarrow>
                   a3 ! k ! c = a2 ! k ! c - a2 ! k ! j * a2 ! i ! c"
        by auto
      have b3: "below_only n i a2 a3"
        using r3 l3 l2 i' u3 e3 by (intro below_only_eliminate[where j = j]) simp_all
      have "a3 \<noteq> []" "i + 1 \<le> length a3" "j + 1 \<le> n" using l3 i' j' by auto
      from IH2[OF refl ne nb c ph[symmetric] refl nr refl el refl refl refl r3 this]
      obtain fs4 a' where p4: "P a3 (i + 1) (j + 1)"
        and g4: "gauss h a3 (i + 1) (j + 1) pl = (fs4, Inr a')"
        and b4: "below_only n (i + 1) a3 a'" by blast
      have g: "gauss h a i j pl =
        (initial_frame a i j @ fs1 @
         [(Some a2, Some [(i, exp_divide h (a1 ! i ! j) pl)]),
          (Some a3, Some (map (\<lambda>k. (k, exp_minus h (a2 ! k ! j) i pl)) [i + 1..<length a]))] @ fs4,
         Inr a')"
        using ne nb c ph nr el g4 by (subst gauss.simps) (simp add: Let_def)
      have "P a i j"
        by (rule Round[OF rect i' j' d r1 l1 p1 a2_def el r3 l3 u3 e3 g4 b4 p4 g])
      moreover have "below_only n i a a'"
        using b1 b2 b3 b4 by (blast intro: below_only_trans below_only_Suc[unfolded Suc_eq_plus1])
      ultimately show ?thesis using g by blast
    qed
    show ?thesis
    proof (cases "a ! i ! j = 0")
      case False
      with rect show ?thesis by (intro round[of "[]" a]) (simp_all add: below_only_refl)
    next
      case True
      have rng: "\<forall>r\<in>set [i + 1..<length a]. r < length a" by simp
      show ?thesis
      proof (cases "find_row a j [i + 1..<length a]")
        case (Inl e)
        with find_row_no_error[OF rect j' rng] show ?thesis by blast
      next
        case (Inr ro)
        show ?thesis
        proof (cases ro)
          case None
          with Inr have z: "\<forall>r. i < r \<and> r < length a \<longrightarrow> a ! r ! j = 0"
            using find_row_range_None[OF rect j', of "length a" "i + 1"] by auto
          have "j + 1 \<le> n" using j' by simp
          from IH1[OF refl ne nb c True Inr None refl refl rect ne i this]
          obtain fs1 a1 where p1: "P a i (j + 1)"
            and g1: "gauss h a i (j + 1) pl = (fs1, Inr a1)"
            and b1: "below_only n i a a1" by blast
          from z True have "\<forall>r. i \<le> r \<and> r < length a \<longrightarrow> a ! r ! j = 0"
            by (metis le_neq_implies_less)
          with b1 j' i' have z1: "a1 ! i ! j = 0" unfolding below_only_def by blast
          from b1 have r1: "rect n a1" and l1: "length a1 = length a"
            unfolding below_only_def by simp_all
          have nr: "normalize_row a1 i j = Inl ZeroDivisionError"
            using r1 l1 i' j' z1 by (simp add: normalize_row_rect)
          have g: "gauss h a i j pl =
                     (initial_frame a i j @ fs1 @ [(Some a1, Some [])], Inr a1)"
            using ne nb c True Inr None g1 nr by (subst gauss.simps) (simp add: Let_def)
          from Skip[OF rect i' j' True z g1 b1 z1 p1 g] g b1 show ?thesis by blast
        next
          case (Some r)
          with Inr have f: "find_row a j [i + 1..<length a] = Inr (Some r)" by simp
          from find_row_range_SomeD[OF rect j' le_refl f]
          have r: "i < r" "r < length a" "a ! r ! j \<noteq> 0"
            "\<forall>r'. i < r' \<and> r' < r \<longrightarrow> a ! r' ! j = 0" by auto
          show ?thesis
          proof (rule round[of "[(Some (swap_rows a i r), Some [(i, exp_swap h i r pl)])]"
                "swap_rows a i r"])
            show "a ! i ! j \<noteq> 0 \<and> [(Some (swap_rows a i r), Some [(i, exp_swap h i r pl)])] = [] \<and>
                  swap_rows a i r = a \<or>
                  a ! i ! j = 0 \<and> (\<exists>ra. i < ra \<and> ra < length a \<and> a ! ra ! j \<noteq> 0 \<and>
                    (\<forall>r'. i < r' \<and> r' < ra \<longrightarrow> a ! r' ! j = 0) \<and> swap_rows a i r = swap_rows a i ra \<and>
                    [(Some (swap_rows a i r), Some [(i, exp_swap h i r pl)])] =
                    [(Some (swap_rows a i r), Some [(i, exp_swap h i ra pl)])])"
              using True r by blast
            show "rect n (swap_rows a i r)" using rect i' r by (simp add: swap_rows_rect)
            show "length (swap_rows a i r) = length a" by (simp add: swap_rows_length)
            show "swap_rows a i r ! i ! j \<noteq> 0" using i' r by (simp add: swap_rows_nth)
            show "below_only n i a (swap_rows a i r)" using rect r by (intro below_only_swap)
          qed
        qed
      qed
    qed
  qed
  then show ?case unfolding hp .
  qed
  from this[OF refl refl valid] show ?thesis by blast
qed

text \<open>
  On a rectangular matrix a call returns (no exception escapes), and it changes the matrix
  only from the pivot row on.
\<close>

lemma gauss_rect_result:
  assumes "rect n a" "a \<noteq> []" "i \<le> length a" "j \<le> n"
  shows "\<exists>fs a'. gauss h a i j pl = (fs, Inr a') \<and> below_only n i a a'"
  using assms
proof (induct rule: gauss_rect_induct[where h = h and pl = pl])
  case (Boundary a i j)
  then show ?case by (auto simp: below_only_refl)
next
  case (Skip a i j fs1 a1)
  then show ?case by auto
next
  case (Round a i j fs1 a1 a2 a3 fs4 a')
  have "below_only n i a a1"
    using Round(1,2,4) by (auto simp: below_only_refl intro: below_only_swap)
  moreover have "below_only n i a1 a2"
    unfolding \<open>a2 = _\<close> using Round(2,5,6) by (intro below_only_normalize) simp_all
  moreover have "length a2 = length a" using Round(6,8) by simp
  then have "below_only n i a2 a3"
    using Round(2,10,11,12,13) by (intro below_only_eliminate[where j = j]) simp_all
  moreover have "below_only n i a3 a'"
    using Round(15) by (simp add: below_only_Suc)
  ultimately have "below_only n i a a'" by (blast intro: below_only_trans)
  with Round(17) show ?case by blast
qed

section \<open>One call on a rectangular matrix\<close>

text \<open>
  The three kinds of call, as equations: the boundary, the skipped column, and the round
  on a pivot found in place or swapped in.
\<close>

lemma gauss_boundary:
  assumes "rect n a" "a \<noteq> []" "i = length a \<or> j = n"
  shows "gauss h a i j pl = (initial_frame a i j @ [(None, Some [])], Inr a)"
proof -
  from assms have "length (a ! 0) = n" by (simp add: rect_nth)
  with assms show ?thesis by (subst gauss.simps) (simp add: Let_def)
qed

lemma gauss_skip_step:
  assumes "rect n a" "i < length a" "j < n"
    and "cell a i j = Inr 0" "find_row a j [i + 1..<length a] = Inr None"
  shows "\<exists>fs1 a1. gauss h a i (j + 1) pl = (fs1, Inr a1) \<and> below_only n i a a1 \<and>
           normalize_row a1 i j = Inl ZeroDivisionError \<and>
           gauss h a i j pl = (initial_frame a i j @ fs1 @ [(Some a1, Some [])], Inr a1)"
proof -
  from assms have ne: "a \<noteq> []" by auto
  with assms have n: "length (a ! 0) = n" by (simp add: rect_nth)
  from assms have p: "a ! i ! j = 0" by (simp add: cell_rect)
  from assms have z: "\<forall>r. i < r \<and> r < length a \<longrightarrow> a ! r ! j = 0"
    using find_row_range_None[OF assms(1,3), of "length a" "i + 1"] by auto
  from gauss_rect_result[OF assms(1) ne, of i "j + 1" h pl] assms obtain fs1 a1 where
    g1: "gauss h a i (j + 1) pl = (fs1, Inr a1)" and b1: "below_only n i a a1" by auto
  from z p have "\<forall>r. i \<le> r \<and> r < length a \<longrightarrow> a ! r ! j = 0"
    by (metis le_neq_implies_less)
  with b1 assms have z1: "a1 ! i ! j = 0" unfolding below_only_def by blast
  from b1 have "rect n a1" "length a1 = length a" unfolding below_only_def by simp_all
  with assms z1 have nr: "normalize_row a1 i j = Inl ZeroDivisionError"
    by (simp add: normalize_row_rect)
  have "gauss h a i j pl = (initial_frame a i j @ fs1 @ [(Some a1, Some [])], Inr a1)"
    using ne n assms g1 nr by (subst gauss.simps) (simp add: Let_def)
  with g1 b1 nr show ?thesis by blast
qed

lemma gauss_round_step:
  assumes "rect n a" "i < length a" "j < n"
    and d: "a ! i ! j \<noteq> 0 \<and> fs1 = [] \<and> a1 = a \<or>
       a ! i ! j = 0 \<and> (\<exists>r. i < r \<and> r < length a \<and> a ! r ! j \<noteq> 0 \<and>
         (\<forall>r'. i < r' \<and> r' < r \<longrightarrow> a ! r' ! j = 0) \<and> a1 = swap_rows a i r \<and>
         fs1 = [(Some a1, Some [(i, exp_swap h i r pl)])])"
    and a2: "a2 = a1[i := map (\<lambda>coeff. coeff / (a1 ! i ! j)) (a1 ! i)]"
    and el: "eliminate h pl i j [i + 1..<length a] (a2, []) = Inr (a3, ex)"
    and g4: "gauss h a3 (i + 1) (j + 1) pl = (fs4, res)"
  shows "gauss h a i j pl =
        (initial_frame a i j @ fs1 @
         [(Some a2, Some [(i, exp_divide h (a1 ! i ! j) pl)]), (Some a3, Some ex)] @ fs4, res)"
proof -
  from assms have ne: "a \<noteq> []" by auto
  with assms have n: "length (a ! 0) = n" by (simp add: rect_nth)
  have c: "cell a i j = Inr (a ! i ! j)" using assms by (simp add: cell_rect)
  have ph: "(if a ! i ! j = 0
         then case find_row a j [i + 1..<length a] of Inl e \<Rightarrow> ([], Inl e)
              | Inr None \<Rightarrow> gauss h a i (j + 1) pl
              | Inr (Some r) \<Rightarrow>
                  ([(Some (swap_rows a i r), Some [(i, exp_swap h i r pl)])],
                   Inr (swap_rows a i r))
         else ([], Inr a)) = (fs1, Inr a1) \<and> rect n a1 \<and> length a1 = length a \<and> a1 ! i ! j \<noteq> 0"
  proof (cases "a ! i ! j = 0")
    case False
    with d assms show ?thesis by simp
  next
    case True
    with d obtain r where r: "i < r" "r < length a" "a ! r ! j \<noteq> 0"
      "\<forall>r'. i < r' \<and> r' < r \<longrightarrow> a ! r' ! j = 0" "a1 = swap_rows a i r"
      "fs1 = [(Some a1, Some [(i, exp_swap h i r pl)])]" by blast
    have "find_row a j [i + 1..<length a] = Inr (Some r)"
      using r by (intro find_row_range_SomeI[OF assms(1,3)]) auto
    with True r assms show ?thesis
      by (simp add: swap_rows_rect swap_rows_length swap_rows_nth)
  qed
  then have ph': "(if a ! i ! j = 0
         then case find_row a j [i + 1..<length a] of Inl e \<Rightarrow> ([], Inl e)
              | Inr None \<Rightarrow> gauss h a i (j + 1) pl
              | Inr (Some r) \<Rightarrow>
                  ([(Some (swap_rows a i r), Some [(i, exp_swap h i r pl)])],
                   Inr (swap_rows a i r))
         else ([], Inr a)) = (fs1, Inr a1)"
    and r1: "rect n a1" "length a1 = length a" "a1 ! i ! j \<noteq> 0" by simp_all
  have nr: "normalize_row a1 i j = Inr (a2, a1 ! i ! j)"
    using r1 assms(2,3) by (simp add: normalize_row_rect a2)
  show ?thesis
    using ne n assms(2,3) c ph' nr el g4 by (subst gauss.simps) (simp add: Let_def)
qed

text \<open>
  The marks of \<open>pivots\<close> for the three kinds of call.
\<close>

lemma pivots_boundary:
  assumes "rect n a" "a \<noteq> []" "i = length a \<or> j = n"
  shows "pivots h a i j pl = []"
proof -
  from assms have "length (a ! 0) = n" by (simp add: rect_nth)
  with assms show ?thesis by (subst pivots.simps) simp
qed

lemma pivots_skip:
  assumes "rect n a" "i < length a" "j < n"
    and "a ! i ! j = 0" "\<forall>r. i < r \<and> r < length a \<longrightarrow> a ! r ! j = 0"
    and g1: "gauss h a i (j + 1) pl = (fs1, Inr a1)" and b1: "below_only n i a a1"
    and z1: "a1 ! i ! j = 0"
  shows "pivots h a i j pl = False # pivots h a i (j + 1) pl"
proof -
  from assms have ne: "a \<noteq> []" by auto
  with assms have n: "length (a ! 0) = n" by (simp add: rect_nth)
  have c: "cell a i j = Inr 0" using assms by (simp add: cell_rect)
  have f: "find_row a j [i + 1..<length a] = Inr None"
    using find_row_range_None[OF assms(1,3), of "length a" "i + 1"] assms(5) by simp
  from b1 have "rect n a1" "length a1 = length a" unfolding below_only_def by simp_all
  with assms z1 have nr: "normalize_row a1 i j = Inl ZeroDivisionError"
    by (simp add: normalize_row_rect)
  show ?thesis
    using ne n assms(2,3) c f g1 nr by (subst pivots.simps) simp
qed

lemma pivots_round:
  assumes "rect n a" "i < length a" "j < n"
    and d: "a ! i ! j \<noteq> 0 \<and> fs1 = [] \<and> a1 = a \<or>
       a ! i ! j = 0 \<and> (\<exists>r. i < r \<and> r < length a \<and> a ! r ! j \<noteq> 0 \<and>
         (\<forall>r'. i < r' \<and> r' < r \<longrightarrow> a ! r' ! j = 0) \<and> a1 = swap_rows a i r \<and>
         fs1 = [(Some a1, Some [(i, exp_swap h i r pl)])])"
    and a2: "a2 = a1[i := map (\<lambda>coeff. coeff / (a1 ! i ! j)) (a1 ! i)]"
    and el: "eliminate h pl i j [i + 1..<length a] (a2, []) = Inr (a3, ex)"
  shows "pivots h a i j pl = True # pivots h a3 (i + 1) (j + 1) pl"
proof -
  from assms have ne: "a \<noteq> []" by auto
  with assms have n: "length (a ! 0) = n" by (simp add: rect_nth)
  have c: "cell a i j = Inr (a ! i ! j)" using assms by (simp add: cell_rect)
  have ph: "(if a ! i ! j = 0
         then case find_row a j [i + 1..<length a] of Inl e \<Rightarrow> ([], Inl e)
              | Inr None \<Rightarrow> (False # pivots h a i (j + 1) pl, snd (gauss h a i (j + 1) pl))
              | Inr (Some r) \<Rightarrow> ([], Inr (swap_rows a i r))
         else ([], Inr a)) = ([], Inr a1) \<and> rect n a1 \<and> length a1 = length a \<and> a1 ! i ! j \<noteq> 0"
  proof (cases "a ! i ! j = 0")
    case False
    with d assms show ?thesis by simp
  next
    case True
    with d obtain r where r: "i < r" "r < length a" "a ! r ! j \<noteq> 0"
      "\<forall>r'. i < r' \<and> r' < r \<longrightarrow> a ! r' ! j = 0" "a1 = swap_rows a i r" by blast
    have "find_row a j [i + 1..<length a] = Inr (Some r)"
      using r by (intro find_row_range_SomeI[OF assms(1,3)]) auto
    with True r assms show ?thesis
      by (simp add: swap_rows_rect swap_rows_length swap_rows_nth)
  qed
  then have ph': "(if a ! i ! j = 0
         then case find_row a j [i + 1..<length a] of Inl e \<Rightarrow> ([], Inl e)
              | Inr None \<Rightarrow> (False # pivots h a i (j + 1) pl, snd (gauss h a i (j + 1) pl))
              | Inr (Some r) \<Rightarrow> ([], Inr (swap_rows a i r))
         else ([], Inr a)) = ([], Inr a1)"
    and r1: "rect n a1" "length a1 = length a" "a1 ! i ! j \<noteq> 0" by simp_all
  have nr: "normalize_row a1 i j = Inr (a2, a1 ! i ! j)"
    using r1 assms(2,3) by (simp add: normalize_row_rect a2)
  show ?thesis
    using ne n assms(2,3) c ph' nr el by (subst pivots.simps) simp
qed

section \<open>The final matrix: C1, C4\<close>

text \<open>
  C1. The claim: on a system with a unique solution the last frame before the sentinel
  holds the reduced matrix, each pivot column being zero outside its pivot row; for the
  rows \<open>1;1;3\<close> and \<open>2;-1;0\<close> it is \<open>[[1,0,1],[0,1,2]]\<close>. The run of the code on that
  input: the elimination loop \<open>for k in range(i + 1, m)\<close> only visits the rows below
  the pivot, so the entry above the second pivot stays and the last matrix is
  \<open>[[1,1,3],[0,1,2]]\<close>, although the docstring announces the Gauss-Jordan algorithm.
\<close>

theorem gauss_two_equations_trace:
  "gauss calls [[1, 1, 3], [2, - 1, 0]] 0 0 False =
     ([(Some [[1, 1, 3], [2, - 1, 0]], None),
       (Some [[1, 1, 3], [2, - 1, 0]], Some [(0, Exp_divide 1 False)]),
       (Some [[1, 1, 3], [0, - 3, - 6]], Some [(1, Exp_minus 2 0 False)]),
       (Some [[1, 1, 3], [0, 1, 2]], Some [(1, Exp_divide (- 3) False)]),
       (Some [[1, 1, 3], [0, 1, 2]], Some []),
       (None, Some [])],
      Inr [[1, 1, 3], [0, 1, 2]])"
  by code_simp

text \<open>
  C4. The claim: after the elimination step of a round with pivot \<open>(i, j)\<close> every row
  \<open>k \<noteq> i\<close> has a zero in column \<open>j\<close>. The round with pivot \<open>(1, 1)\<close> of the run above
  starts from \<open>[[1,1,3],[0,-3,-6]]\<close>: its elimination loop is empty and row \<open>0\<close> keeps
  its \<open>1\<close> in column \<open>1\<close>. It is the same loop bound as in C1.
\<close>

theorem eliminate_leaves_rows_above:
  "normalize_row [[1, 1, 3], [0, - 3, - 6]] 1 1 = Inr ([[1, 1, 3], [0, 1, 2]], - 3) \<and>
   eliminate calls False 1 1 [1 + 1 ..< length [[1, 1, 3], [0, - 3, - 6 :: rat]]]
       ([[1, 1, 3], [0, 1, 2]], []) = Inr ([[1, 1, 3], [0, 1, 2]], []) \<and>
   [[1, 1, 3], [0, 1, 2 :: rat]] ! 0 ! 1 = 1"
  by code_simp

section \<open>The degenerate column: C2, C5\<close>

text \<open>
  C2 as stated: when the pivot entry is zero and no row below has a non-zero entry in
  column \<open>j\<close>, the call forwards the frames of the recursion on column \<open>j + 1\<close> and
  returns without attempting the normalization, so that the zero-divisor branch is never
  executed on a valid matrix. The matrix \<open>[[0]]\<close> passes \<open>check_matrix\<close> and its call at
  \<open>(0, 0)\<close> is of this kind: after the recursion, which yields the sentinel, the
  normalization raises \<open>ZeroDivisionError\<close> and the frame \<open>(a, dict())\<close> follows, so
  the trace is not the initial frame followed by the frames of the recursion.
\<close>

theorem degenerate_column_counterexample:
  "check_matrix [[0]] = Inr () \<and>
   cell [[0]] 0 0 = Inr 0 \<and>
   find_row [[0]] 0 [0 + 1..<length [[0 :: rat]]] = Inr None \<and>
   gauss calls [[0]] 0 (0 + 1) False = ([(None, Some [])], Inr [[0]]) \<and>
   normalize_row [[0]] 0 0 = Inl ZeroDivisionError \<and>
   gauss calls [[0]] 0 0 False =
     ([(Some [[0]], None), (None, Some []), (Some [[0]], Some [])], Inr [[0]]) \<and>
   fst (gauss calls [[0]] 0 0 False) \<noteq>
     initial_frame [[0]] 0 0 @ fst (gauss calls [[0]] 0 (0 + 1) False)"
  by code_simp

text \<open>
  C2, amended. On a rectangular matrix, when the pivot entry \<open>a[i][j]\<close> is zero and no
  row \<open>r\<close> in \<open>i+1..m-1\<close> has a non-zero entry in column \<open>j\<close>, \<open>gauss\<close> recurses with
  the same \<open>i\<close> and \<open>j + 1\<close>, forwards every frame of that recursion, and then attempts
  the normalization of row \<open>i\<close> on the matrix \<open>a1\<close> the recursion left: the division
  by zero is caught, one more frame (\<open>a1\<close>, empty explanation) is yielded and the call
  returns \<open>a1\<close>, without elimination or further recursion at that level. The
  zero-divisor branch is thus executed on every valid matrix with such a column.
\<close>

theorem degenerate_column_zero_division:
  assumes "rect n a" "i < length a" "j < n"
    and "cell a i j = Inr 0" "find_row a j [i + 1..<length a] = Inr None"
  shows "\<exists>fs1 a1. gauss h a i (j + 1) pl = (fs1, Inr a1) \<and>
           normalize_row a1 i j = Inl ZeroDivisionError \<and>
           gauss h a i j pl = (initial_frame a i j @ fs1 @ [(Some a1, Some [])], Inr a1)"
  using gauss_skip_step[OF assms, of h pl] by blast

theorem degenerate_column_zero_division_witness:
  "rect 3 [[0, 1, 5], [0, 0, 0]] \<and>
   cell [[0, 1, 5], [0, 0, 0]] 1 2 = Inr 0 \<and>
   find_row [[0, 1, 5], [0, 0, 0]] 2 [1 + 1..<length [[0, 1, 5], [0, 0, 0 :: rat]]] = Inr None \<and>
   (\<exists>fs1 a1. gauss calls [[0, 1, 5], [0, 0, 0]] 1 (2 + 1) True = (fs1, Inr a1) \<and>
      normalize_row a1 1 2 = Inl ZeroDivisionError \<and>
      gauss calls [[0, 1, 5], [0, 0, 0]] 1 2 True =
        (initial_frame [[0, 1, 5], [0, 0, 0]] 1 2 @ fs1 @ [(Some a1, Some [])], Inr a1))"
proof -
  have r: "rect 3 [[0, 1, 5], [0, 0, 0]]" by code_simp
  have c: "cell [[0, 1, 5], [0, 0, 0]] 1 2 = Inr 0" by code_simp
  have f: "find_row [[0, 1, 5], [0, 0, 0]] 2 [1 + 1..<length [[0, 1, 5], [0, 0, 0 :: rat]]] = Inr None"
    by code_simp
  from degenerate_column_zero_division[OF r _ _ c f, of calls True] r c f show ?thesis by simp
qed

text \<open>
  On any matrix, rectangular or not, the only exception that can leave \<open>gauss\<close> is an
  \<open>IndexError\<close>: the division is the only source of a \<open>ZeroDivisionError\<close>, and it
  stands inside the \<open>try\<close> block.
\<close>

lemma cell_error: "cell a i j = Inl e \<Longrightarrow> e = IndexError"
  by (simp add: cell_def split: if_splits)

lemma find_row_error: "find_row a j rs = Inl e \<Longrightarrow> e = IndexError"
  by (induction rs) (auto split: sum.splits if_splits dest: cell_error)

lemma eliminate_error: "eliminate h pl i j ks (a, ex) = Inl e \<Longrightarrow> e = IndexError"
  by (induction ks arbitrary: a ex) (auto split: sum.splits dest: cell_error)

lemma normalize_row_error: "normalize_row a i j = Inl e \<Longrightarrow> e = IndexError \<or> e = ZeroDivisionError"
  by (auto simp: normalize_row_def split: sum.splits if_splits dest: cell_error)

lemma gauss_error: "snd (gauss h a i j pl) = Inl e \<Longrightarrow> e = IndexError"
proof (induction h a i j pl rule: gauss.induct)
  case (1 h a i j pl)
  note s = gauss.simps[of h a i j pl]
  note res = "1.prems"
  show ?case
  proof (cases "a = [] \<or> i = length a \<or> j = length (a ! 0)")
    case True
    with res show ?thesis by (auto simp: s Let_def split: if_splits)
  next
    case False
    then have ne: "a \<noteq> []" and nb: "\<not> (i = length a \<or> j = length (a ! 0))" by auto
    show ?thesis
    proof (cases "cell a i j")
      case (Inl e')
      with res ne nb show ?thesis by (auto simp: s Let_def dest: cell_error)
    next
      case c: (Inr p)
      let ?ph = "if p = 0
         then case find_row a j [i + 1..<length a] of Inl e \<Rightarrow> ([], Inl e)
              | Inr None \<Rightarrow> gauss h a i (j + 1) pl
              | Inr (Some r) \<Rightarrow>
                  ([(Some (swap_rows a i r), Some [(i, exp_swap h i r pl)])],
                   Inr (swap_rows a i r))
         else ([], Inr a)"
      obtain fs1 r1 where ph: "?ph = (fs1, r1)" by (cases ?ph)
      show ?thesis
      proof (cases r1)
        case (Inl e')
        with res ne nb c ph have e: "e' = e" by (simp add: s Let_def)
        show ?thesis
        proof (cases "p = 0")
          case False
          with ph Inl show ?thesis by simp
        next
          case True
          show ?thesis
          proof (cases "find_row a j [i + 1..<length a]")
            case f: (Inl e'')
            with ph Inl True e show ?thesis by (auto dest: find_row_error)
          next
            case f: (Inr ro)
            show ?thesis
            proof (cases ro)
              case None
              with ph Inl True f e have "snd (gauss h a i (j + 1) pl) = Inl e" by simp
              from "1.IH"(1)[OF refl ne nb c True f None this] show ?thesis .
            next
              case (Some r)
              with ph Inl True f show ?thesis by simp
            qed
          qed
        qed
      next
        case r1: (Inr a1)
        show ?thesis
        proof (cases "normalize_row a1 i j")
          case (Inl e')
          with res ne nb c ph r1 show ?thesis
            by (auto simp: s Let_def split: if_splits dest: normalize_row_error)
        next
          case nr: (Inr x)
          obtain a2 d where x: "x = (a2, d)" by (cases x)
          show ?thesis
          proof (cases "eliminate h pl i j [i + 1..<length a] (a2, [])")
            case (Inl e')
            with res ne nb c ph r1 nr x show ?thesis
              by (auto simp: s Let_def dest: eliminate_error)
          next
            case el: (Inr y)
            obtain a3 ex where y: "y = (a3, ex)" by (cases y)
            obtain fs4 r4 where g4: "gauss h a3 (i + 1) (j + 1) pl = (fs4, r4)"
              by (cases "gauss h a3 (i + 1) (j + 1) pl")
            with res ne nb c ph r1 nr x el y have "snd (gauss h a3 (i + 1) (j + 1) pl) = Inl e"
              by (simp add: s Let_def)
            from "1.IH"(2)[OF refl ne nb c ph[symmetric] r1 nr x[symmetric] el y[symmetric] this]
            show ?thesis .
          qed
        qed
      qed
    qed
  qed
qed

text \<open>
  C5. For every matrix that passed \<open>check_matrix\<close>, singular ones included, no exception
  leaves \<open>gauss\<close>: the call returns, with the matrix \<open>a'\<close> it ends on. Where the pivot
  column is degenerate, the \<open>ZeroDivisionError\<close> that the normalization raises on \<open>a'\<close>
  is caught and answered by a frame with empty explanation, which is the last frame of
  that call. (On a matrix that did not pass, an \<open>IndexError\<close> may escape, a
  \<open>ZeroDivisionError\<close> never: \<open>gauss_error\<close> above.) The witness is the run on
  \<open>[[0,1,5],[0,2,10]]\<close>.
\<close>

theorem gauss_catches_zero_division:
  assumes "check_matrix a = Inr ()" "i \<le> length a" "j \<le> length (a ! 0)"
  shows "\<exists>fs a'. gauss h a i j pl = (fs, Inr a') \<and>
           (i < length a \<and> j < length (a ! 0) \<and> cell a i j = Inr 0 \<and>
            find_row a j [i + 1..<length a] = Inr None \<longrightarrow>
              normalize_row a' i j = Inl ZeroDivisionError \<and> last fs = (Some a', Some []))"
proof -
  from assms have v: "a \<noteq> []" "rect (length (a ! 0)) a" by (simp_all add: check_matrix_rect)
  from gauss_rect_result[OF v(2,1) assms(2,3), of h pl] obtain fs a' where
    g: "gauss h a i j pl = (fs, Inr a')" by auto
  have "normalize_row a' i j = Inl ZeroDivisionError \<and> last fs = (Some a', Some [])"
    if "i < length a" "j < length (a ! 0)" "cell a i j = Inr 0"
       "find_row a j [i + 1..<length a] = Inr None"
    using gauss_skip_step[OF v(2) that, of h pl] g by auto
  with g show ?thesis by blast
qed

theorem gauss_catches_zero_division_witness:
  "check_matrix [[0, 1, 5], [0, 2, 10]] = Inr () \<and>
   (\<exists>fs. gauss calls [[0, 1, 5], [0, 2, 10]] 0 0 False = (fs, Inr [[0, 1, 5], [0, 0, 0]]) \<and>
      normalize_row [[0, 1, 5], [0, 0, 0]] 0 0 = Inl ZeroDivisionError \<and>
      last fs = (Some [[0, 1, 5], [0, 0, 0]], Some []))"
proof -
  have v: "check_matrix [[0, 1, 5], [0, 2, 10]] = Inr ()" by code_simp
  have c: "cell [[0, 1, 5], [0, 2, 10]] 0 0 = Inr 0" by code_simp
  have f: "find_row [[0, 1, 5], [0, 2, 10]] 0 [0 + 1..<length [[0, 1, 5], [0, 2, 10 :: rat]]] = Inr None"
    by code_simp
  have g: "snd (gauss calls [[0, 1, 5], [0, 2, 10]] 0 0 False) = Inr [[0, 1, 5], [0, 0, 0]]"
    by code_simp
  from gauss_catches_zero_division[OF v, of 0 0 calls False] c f g v show ?thesis by auto
qed

section \<open>The end of the trace: C3\<close>

lemma initial_frame_matrix: "list_all (\<lambda>f. fst f \<noteq> None) (initial_frame a i j)"
  by (simp add: initial_frame_def)

lemma gauss_trace_shape:
  assumes "rect n a" "a \<noteq> []" "i \<le> length a" "j \<le> n"
  shows "\<exists>pre a'. gauss h a i j pl =
             (pre @ (None, Some []) #
                replicate (count_list (pivots h a i j pl) False) (Some a', Some []), Inr a') \<and>
           list_all (\<lambda>f. fst f \<noteq> None) pre \<and>
           (i = j \<and> (\<forall>d. i \<le> d \<and> d < length a \<and> d < n \<longrightarrow> a' ! d ! d \<noteq> 0) \<longrightarrow>
              count_list (pivots h a i j pl) False = 0)"
  using assms
proof (induct rule: gauss_rect_induct[where h = h and pl = pl])
  case (Boundary a i j)
  have p: "pivots h a i j pl = []" using Boundary(1,2,5) by (rule pivots_boundary)
  have "gauss h a i j pl = (initial_frame a i j @ (None, Some []) # replicate 0 (Some a, Some []), Inr a)"
    using Boundary by simp
  then show ?case using initial_frame_matrix p by fastforce
next
  case (Skip a i j fs1 a1)
  have p: "pivots h a i j pl = False # pivots h a i (j + 1) pl"
    using Skip(1,2,3,4,5,6,7,8) by (rule pivots_skip)
  let ?k = "count_list (pivots h a i (j + 1) pl) False"
  from Skip(9) Skip(6) obtain pre where
    fs1: "fs1 = pre @ (None, Some []) # replicate ?k (Some a1, Some [])"
    and pre: "list_all (\<lambda>f. fst f \<noteq> None) pre" by auto
  have "gauss h a i j pl =
          ((initial_frame a i j @ pre) @ (None, Some []) #
             replicate (count_list (pivots h a i j pl) False) (Some a1, Some []), Inr a1)"
    using Skip(10) fs1 p by (simp add: replicate_append_same)
  moreover have "list_all (\<lambda>f. fst f \<noteq> None) (initial_frame a i j @ pre)"
    using pre initial_frame_matrix by simp
  moreover have "\<not> (i = j \<and> (\<forall>d. i \<le> d \<and> d < length a \<and> d < n \<longrightarrow> a1 ! d ! d \<noteq> 0))"
    using Skip(2,3,8) by auto
  ultimately show ?case by blast
next
  case (Round a i j fs1 a1 a2 a3 fs4 a')
  have p: "pivots h a i j pl = True # pivots h a3 (i + 1) (j + 1) pl"
    using Round(1,2,3,4,8,9) by (rule pivots_round)
  let ?k = "count_list (pivots h a3 (i + 1) (j + 1) pl) False"
  from Round(16) Round(14) obtain pre where
    fs4: "fs4 = pre @ (None, Some []) # replicate ?k (Some a', Some [])"
    and pre: "list_all (\<lambda>f. fst f \<noteq> None) pre"
    and k: "i + 1 = j + 1 \<and> (\<forall>d. i + 1 \<le> d \<and> d < length a3 \<and> d < n \<longrightarrow> a' ! d ! d \<noteq> 0) \<longrightarrow> ?k = 0"
    by auto
  let ?pre = "initial_frame a i j @ fs1 @
         [(Some a2, Some [(i, exp_divide h (a1 ! i ! j) pl)]),
          (Some a3, Some (map (\<lambda>k. (k, exp_minus h (a2 ! k ! j) i pl)) [i + 1..<length a]))] @ pre"
  have "gauss h a i j pl = (?pre @ (None, Some []) #
          replicate (count_list (pivots h a i j pl) False) (Some a', Some []), Inr a')"
    using Round(17) fs4 p by simp
  moreover have "list_all (\<lambda>f. fst f \<noteq> None) fs1" using Round(4) by auto
  then have "list_all (\<lambda>f. fst f \<noteq> None) ?pre"
    using pre initial_frame_matrix by simp
  moreover have "count_list (pivots h a i j pl) False = 0"
    if "i = j" "\<forall>d. i \<le> d \<and> d < length a \<and> d < n \<longrightarrow> a' ! d ! d \<noteq> 0"
    using k that Round(11) p by simp
  ultimately show ?case by blast
qed

text \<open>
  C3 as stated: on every valid matrix the sentinel is the last frame of the trace. On
  \<open>[[0,1,5],[0,2,10]]\<close> two columns are skipped (column \<open>0\<close> at row \<open>0\<close>, column \<open>2\<close> at
  row \<open>1\<close>), and each of the two calls yields its frame \<open>(a, dict())\<close> after the
  sentinel.
\<close>

theorem sentinel_not_last_counterexample:
  "check_matrix [[0, 1, 5], [0, 2, 10]] = Inr () \<and>
   fst (gauss calls [[0, 1, 5], [0, 2, 10]] 0 0 False) =
     [(Some [[0, 1, 5], [0, 2, 10]], None),
      (Some [[0, 1, 5], [0, 2, 10]], Some [(0, Exp_divide 1 False)]),
      (Some [[0, 1, 5], [0, 0, 0]], Some [(1, Exp_minus 2 0 False)]),
      (None, Some []),
      (Some [[0, 1, 5], [0, 0, 0]], Some []),
      (Some [[0, 1, 5], [0, 0, 0]], Some [])] \<and>
   last (fst (gauss calls [[0, 1, 5], [0, 2, 10]] 0 0 False)) \<noteq> (None, Some [])"
  by code_simp

text \<open>
  C3, amended. On every matrix that passed \<open>check_matrix\<close> the trace contains the
  sentinel (absent matrix, empty explanation) exactly once: every frame before it carries
  a matrix, and the frames after it are copies of (final matrix, empty explanation), the
  frames of the zero-divisor branch, exactly one for each column the run skipped (the
  marks \<open>False\<close> of \<open>pivots\<close>). When the final matrix has a non-zero entry at every
  diagonal position \<open>d < min(m, n)\<close>, as it has when a pivot was found in every column,
  no column was skipped and the sentinel is the last frame.
\<close>

theorem sentinel_then_zero_division_frames:
  assumes "check_matrix a = Inr ()"
  shows "\<exists>pre a'. gauss h a 0 0 pl =
            (pre @ (None, Some []) #
               replicate (count_list (pivots h a 0 0 pl) False) (Some a', Some []), Inr a') \<and>
          list_all (\<lambda>f. fst f \<noteq> None) pre \<and>
          ((\<forall>d. d < length a \<and> d < length (a ! 0) \<longrightarrow> a' ! d ! d \<noteq> 0) \<longrightarrow>
             count_list (pivots h a 0 0 pl) False = 0)"
proof -
  from assms have v: "a \<noteq> []" "rect (length (a ! 0)) a" by (simp_all add: check_matrix_rect)
  from gauss_trace_shape[OF v(2,1), of 0 0 h pl] show ?thesis by simp
qed

theorem sentinel_then_zero_division_frames_witness:
  "check_matrix [[0, 1, 5], [0, 2, 10]] = Inr () \<and>
   pivots calls [[0, 1, 5], [0, 2, 10]] 0 0 False = [False, True, False] \<and>
   (\<exists>pre. gauss calls [[0, 1, 5], [0, 2, 10]] 0 0 False =
            (pre @ [(None, Some []),
                    (Some [[0, 1, 5], [0, 0, 0]], Some []),
                    (Some [[0, 1, 5], [0, 0, 0]], Some [])], Inr [[0, 1, 5], [0, 0, 0]]) \<and>
          list_all (\<lambda>f. fst f \<noteq> None) pre) \<and>
   check_matrix [[1, 1, 3], [2, - 1, 0]] = Inr () \<and>
   pivots calls [[1, 1, 3], [2, - 1, 0]] 0 0 False = [True, True] \<and>
   (\<exists>pre. gauss calls [[1, 1, 3], [2, - 1, 0]] 0 0 False =
            (pre @ [(None, Some [])], Inr [[1, 1, 3], [0, 1, 2]]) \<and>
          list_all (\<lambda>f. fst f \<noteq> None) pre)"
proof -
  let ?a = "[[0, 1, 5], [0, 2, 10 :: rat]]"
  let ?b = "[[1, 1, 3], [2, - 1, 0 :: rat]]"
  have va: "check_matrix ?a = Inr ()" by code_simp
  have pa: "pivots calls ?a 0 0 False = [False, True, False]" by code_simp
  have sa: "snd (gauss calls ?a 0 0 False) = Inr [[0, 1, 5], [0, 0, 0]]" by code_simp
  from sentinel_then_zero_division_frames[OF va, of calls False] obtain pre a' where
    g: "gauss calls ?a 0 0 False =
          (pre @ (None, Some []) #
             replicate (count_list (pivots calls ?a 0 0 False) False) (Some a', Some []), Inr a')"
    and pre: "list_all (\<lambda>f. fst f \<noteq> None) pre"
    by blast
  from g sa have a': "a' = [[0, 1, 5], [0, 0, 0]]" by simp
  have "replicate (count_list [False, True, False] False) (Some a', Some ([] :: (nat \<times> explanation) list)) =
          [(Some a', Some []), (Some a', Some [])]"
    by simp
  with g pa a' pre have A: "\<exists>pre. gauss calls ?a 0 0 False =
            (pre @ [(None, Some []),
                    (Some [[0, 1, 5], [0, 0, 0]], Some []),
                    (Some [[0, 1, 5], [0, 0, 0]], Some [])], Inr [[0, 1, 5], [0, 0, 0]]) \<and>
          list_all (\<lambda>f. fst f \<noteq> None) pre"
    by auto
  have vb: "check_matrix ?b = Inr ()" by code_simp
  have pb: "pivots calls ?b 0 0 False = [True, True]" by code_simp
  have sb: "snd (gauss calls ?b 0 0 False) = Inr [[1, 1, 3], [0, 1, 2]]" by code_simp
  from sentinel_then_zero_division_frames[OF vb, of calls False] obtain pre b' where
    g: "gauss calls ?b 0 0 False =
          (pre @ (None, Some []) #
             replicate (count_list (pivots calls ?b 0 0 False) False) (Some b', Some []), Inr b')"
    and pre: "list_all (\<lambda>f. fst f \<noteq> None) pre"
    and k: "(\<forall>d. d < length ?b \<and> d < length (?b ! 0) \<longrightarrow> b' ! d ! d \<noteq> 0) \<longrightarrow>
              count_list (pivots calls ?b 0 0 False) False = 0"
    by blast
  from g sb have b': "b' = [[1, 1, 3], [0, 1, 2]]" by simp
  have "b' ! d ! d \<noteq> 0" if "d < 2" for d
    using less_2_cases[OF that] b' by auto
  with k have "count_list (pivots calls ?b 0 0 False) False = 0" by simp
  with g b' pre have B: "\<exists>pre. gauss calls ?b 0 0 False =
            (pre @ [(None, Some [])], Inr [[1, 1, 3], [0, 1, 2]]) \<and>
          list_all (\<lambda>f. fst f \<noteq> None) pre"
    by auto
  from va pa A vb pb B show ?thesis by blast
qed

section \<open>Running again on the result: C7\<close>

lemma idle_initial_frame: "list_all (idle_frame h pl a) (initial_frame a i j)"
  by (simp add: initial_frame_def idle_frame_def)

lemma idle_plain_frames:
  "idle_frame h pl a (None, Some [])" "idle_frame h pl a (Some a, Some [])"
  by (simp_all add: idle_frame_def)

lemma idle_round_frames:
  "i < length a \<Longrightarrow> idle_frame h pl a (Some a, Some [(i, exp_divide h 1 pl)]) \<and>
     idle_frame h pl a (Some a, Some (map (\<lambda>k. (k, exp_minus h 0 i pl)) [i + 1..<length a]))"
  unfolding idle_frame_def list_ex_iff by auto

lemma gauss_settled_round:
  assumes "rect n a" "i < length a" "j < n" "a ! i ! j = 1"
    and z: "\<forall>k. i < k \<and> k < length a \<longrightarrow> a ! k ! j = 0"
    and g4: "gauss h a (i + 1) (j + 1) pl = (fs4, res)"
  shows "gauss h a i j pl =
           (initial_frame a i j @
            [(Some a, Some [(i, exp_divide h 1 pl)]),
             (Some a, Some (map (\<lambda>k. (k, exp_minus h 0 i pl)) [i + 1..<length a]))] @ fs4, res)"
proof -
  let ?a2 = "a[i := map (\<lambda>coeff. coeff / (a ! i ! j)) (a ! i)]"
  have a2: "?a2 = a" using assms(4) by simp
  from eliminate_range[OF assms(1,2,3), of h pl] obtain a3 where
    el: "eliminate h pl i j [i + 1..<length a] (a, []) =
           Inr (a3, map (\<lambda>k. (k, exp_minus h (a ! k ! j) i pl)) [i + 1..<length a])"
    and r3: "rect n a3" "length a3 = length a" and u3: "\<forall>r\<le>i. a3 ! r = a ! r"
    and e3: "\<forall>k c. i < k \<and> k < length a \<and> c < n \<longrightarrow> a3 ! k ! c = a ! k ! c - a ! k ! j * a ! i ! c"
    by auto
  have "a3 = a"
  proof (rule nth_equalityI)
    show "length a3 = length a" by fact
  next
    fix r assume r: "r < length a3"
    show "a3 ! r = a ! r"
    proof (cases "r \<le> i")
      case True
      with u3 show ?thesis by simp
    next
      case False
      with r r3 have k: "i < r" "r < length a" by simp_all
      show ?thesis
      proof (rule nth_equalityI)
        show "length (a3 ! r) = length (a ! r)"
          using r3 assms(1) k by (simp add: rect_nth)
      next
        fix c assume "c < length (a3 ! r)"
        with r3 k have "c < n" by (simp add: rect_nth)
        with e3 k z show "a3 ! r ! c = a ! r ! c" by simp
      qed
    qed
  qed
  moreover have "map (\<lambda>k. (k, exp_minus h (a ! k ! j) i pl)) [i + 1..<length a] =
                 map (\<lambda>k. (k, exp_minus h 0 i pl)) [i + 1..<length a]"
    using z by (intro map_cong refl) simp
  ultimately have el': "eliminate h pl i j [i + 1..<length a] (?a2, []) =
           Inr (a, map (\<lambda>k. (k, exp_minus h 0 i pl)) [i + 1..<length a])"
    using el a2 by simp
  have d: "a ! i ! j \<noteq> 0 \<and> [] = [] \<and> a = a \<or>
       a ! i ! j = 0 \<and> (\<exists>r. i < r \<and> r < length a \<and> a ! r ! j \<noteq> 0 \<and>
         (\<forall>r'. i < r' \<and> r' < r \<longrightarrow> a ! r' ! j = 0) \<and> a = swap_rows a i r \<and>
         [] = [(Some a, Some [(i, exp_swap h i r pl)])])"
    using assms(4) by simp
  from gauss_round_step[OF assms(1,2,3) d refl el' g4] a2 assms(4) show ?thesis by simp
qed

lemma idle_settled_round: "i < length a \<Longrightarrow> list_all (idle_frame h pl a) (settled_round h pl a i)"
  using idle_round_frames[of i a h pl] by (simp add: settled_round_def)

lemma initial_frame_later: "initial_frame a i (Suc j) = []"
  by (simp add: initial_frame_def)

lemma gauss_rerun_trace:
  assumes "rect n a" "a \<noteq> []" "i \<le> length a" "j \<le> n"
  shows "\<exists>fs a'. gauss h a i j pl = (fs, Inr a') \<and>
           gauss h a' i j pl' =
             (initial_frame a' i j @
              concat (map (settled_round h pl' a') [i ..< i + count_list (pivots h a i j pl) True]) @
              (None, Some []) # replicate (count_list (pivots h a i j pl) False) (Some a', Some []),
              Inr a') \<and>
           i + count_list (pivots h a i j pl) True \<le> length a'"
  using assms
proof (induct rule: gauss_rect_induct[where h = h and pl = pl])
  case (Boundary a i j)
  have p: "pivots h a i j pl = []" using Boundary(1,2,5) by (rule pivots_boundary)
  from gauss_boundary[OF Boundary(1,2,5), of h pl'] Boundary(3,6) p show ?case by simp
next
  case (Skip a i j fs1 a1)
  have p: "pivots h a i j pl = False # pivots h a i (j + 1) pl"
    using Skip(1,2,3,4,5,6,7,8) by (rule pivots_skip)
  let ?r = "count_list (pivots h a i (j + 1) pl) True"
  let ?k = "count_list (pivots h a i (j + 1) pl) False"
  from Skip(7) have r1: "rect n a1" "length a1 = length a" unfolding below_only_def by simp_all
  from Skip(9) Skip(6) have
    g': "gauss h a1 i (j + 1) pl' =
           (concat (map (settled_round h pl' a1) [i ..< i + ?r]) @
            (None, Some []) # replicate ?k (Some a1, Some []), Inr a1)"
    and le: "i + ?r \<le> length a1"
    by (simp_all add: initial_frame_later)
  from Skip(4,5) have "\<forall>r. i \<le> r \<and> r < length a \<longrightarrow> a ! r ! j = 0"
    by (metis le_neq_implies_less)
  with Skip(7) Skip(3) have z1: "\<forall>r. i \<le> r \<and> r < length a \<longrightarrow> a1 ! r ! j = 0"
    unfolding below_only_def by blast
  have c: "cell a1 i j = Inr 0" using r1 Skip(2,3,8) by (simp add: cell_rect)
  have f: "find_row a1 j [i + 1..<length a1] = Inr None"
    using find_row_range_None[OF r1(1) Skip(3), of "length a1" "i + 1"] z1 r1(2) by simp
  from gauss_skip_step[OF r1(1) _ Skip(3) c f, of h pl'] r1(2) Skip(2) g'
  have "gauss h a1 i j pl' =
          (initial_frame a1 i j @
           (concat (map (settled_round h pl' a1) [i ..< i + ?r]) @
            (None, Some []) # replicate ?k (Some a1, Some [])) @ [(Some a1, Some [])], Inr a1)"
    by auto
  then have "gauss h a1 i j pl' =
          (initial_frame a1 i j @
           concat (map (settled_round h pl' a1) [i ..< i + count_list (pivots h a i j pl) True]) @
           (None, Some []) # replicate (count_list (pivots h a i j pl) False) (Some a1, Some []), Inr a1)"
    using p by (simp add: replicate_append_same)
  with Skip(10) le p show ?case by simp
next
  case (Round a i j fs1 a1 a2 a3 fs4 a')
  have p: "pivots h a i j pl = True # pivots h a3 (i + 1) (j + 1) pl"
    using Round(1,2,3,4,8,9) by (rule pivots_round)
  let ?r = "count_list (pivots h a3 (i + 1) (j + 1) pl) True"
  let ?k = "count_list (pivots h a3 (i + 1) (j + 1) pl) False"
  from Round(15) have r': "rect n a'" "length a' = length a3" "\<forall>r<i + 1. a' ! r = a3 ! r"
    and z': "\<forall>c<n. (\<forall>r. i + 1 \<le> r \<and> r < length a3 \<longrightarrow> a3 ! r ! c = 0) \<longrightarrow>
              (\<forall>r. i + 1 \<le> r \<and> r < length a3 \<longrightarrow> a' ! r ! c = 0)"
    unfolding below_only_def by simp_all
  from Round(16) Round(14) have
    g': "gauss h a' (i + 1) (j + 1) pl' =
           (concat (map (settled_round h pl' a') [i + 1 ..< i + 1 + ?r]) @
            (None, Some []) # replicate ?k (Some a', Some []), Inr a')"
    and le: "i + 1 + ?r \<le> length a'"
    by (simp_all add: initial_frame_later)
  have one2: "a2 ! i ! j = 1"
    using Round(2,3,5,6,7) by (simp add: \<open>a2 = _\<close> rect_nth)
  have "a' ! i = a2 ! i" using r'(3) Round(12) by simp
  with one2 have one: "a' ! i ! j = 1" by simp
  have "\<forall>r. i + 1 \<le> r \<and> r < length a3 \<longrightarrow> a3 ! r ! j = 0"
    using Round(13) one2 Round(3,11) by simp
  with z' Round(3) have "\<forall>r. i + 1 \<le> r \<and> r < length a3 \<longrightarrow> a' ! r ! j = 0" by blast
  then have z: "\<forall>k. i < k \<and> k < length a' \<longrightarrow> a' ! k ! j = 0" using r'(2) by simp
  have i': "i < length a'" using r'(2) Round(2,11) by simp
  from gauss_settled_round[OF r'(1) i' Round(3) one z g']
  have "gauss h a' i j pl' =
           (initial_frame a' i j @ settled_round h pl' a' i @
            concat (map (settled_round h pl' a') [i + 1 ..< i + 1 + ?r]) @
            (None, Some []) # replicate ?k (Some a', Some []), Inr a')"
    by (simp add: settled_round_def)
  moreover have "[i ..< i + count_list (pivots h a i j pl) True] = i # [i + 1 ..< i + 1 + ?r]"
    using p by (simp add: upt_conv_Cons)
  ultimately have "gauss h a' i j pl' =
          (initial_frame a' i j @
           concat (map (settled_round h pl' a') [i ..< i + count_list (pivots h a i j pl) True]) @
           (None, Some []) # replicate (count_list (pivots h a i j pl) False) (Some a', Some []), Inr a')"
    using p by simp
  with Round(17) le p show ?case by simp
qed

lemma idle_settled_trace:
  assumes "i + r \<le> length a"
  shows "list_all (idle_frame h pl a)
           (initial_frame a i j @ concat (map (settled_round h pl a) [i ..< i + r]) @
            (None, Some []) # replicate k (Some a, Some []))"
proof -
  have "list_all (idle_frame h pl a) (settled_round h pl a y)" if "y \<in> set [i ..< i + r]" for y
    using that assms by (intro idle_settled_round) simp
  then have "list_all (idle_frame h pl a) (concat (map (settled_round h pl a) [i ..< i + r]))"
    unfolding list_all_iff by auto
  moreover have "list_all (idle_frame h pl a) (replicate k (Some a, Some []))"
    by (induction k) (simp_all add: idle_plain_frames)
  ultimately show ?thesis
    by (simp add: idle_initial_frame idle_plain_frames)
qed

text \<open>
  C7 as stated: run on the final matrix of a completed elimination, \<open>gauss\<close> yields a
  trace whose only frame is that matrix, and triggers no division or elimination. The
  final matrix of the run on \<open>[[1,1,3],[2,-1,0]]\<close> is \<open>[[1,1,3],[0,1,2]]\<close>; the run on
  it yields six frames, two of a division and two of an elimination.
\<close>

theorem rerun_counterexample:
  "snd (gauss calls [[1, 1, 3], [2, - 1, 0]] 0 0 False) = Inr [[1, 1, 3], [0, 1, 2]] \<and>
   fst (gauss calls [[1, 1, 3], [0, 1, 2]] 0 0 False) =
     [(Some [[1, 1, 3], [0, 1, 2]], None),
      (Some [[1, 1, 3], [0, 1, 2]], Some [(0, Exp_divide 1 False)]),
      (Some [[1, 1, 3], [0, 1, 2]], Some [(1, Exp_minus 0 0 False)]),
      (Some [[1, 1, 3], [0, 1, 2]], Some [(1, Exp_divide 1 False)]),
      (Some [[1, 1, 3], [0, 1, 2]], Some []),
      (None, Some [])] \<and>
   fst (gauss calls [[1, 1, 3], [0, 1, 2]] 0 0 False) \<noteq> [(Some [[1, 1, 3], [0, 1, 2]], None)]"
  by code_simp

text \<open>
  C7, amended. If \<open>gauss\<close> ends on the matrix \<open>a'\<close> when run on a matrix that passed
  \<open>check_matrix\<close>, then run on \<open>a'\<close> it ends on \<open>a'\<close> again, and the second trace is
  exactly: the initial frame; for each round of the first run, in order, the frame of a
  division by \<open>1\<close> and the frame of an elimination that subtracts \<open>0\<close> times the pivot
  row; the sentinel; and one frame (\<open>a'\<close>, empty explanation) for each column the first
  run skipped. So a frame is yielded for every step although none changes the matrix:
  with \<open>r\<close> rounds and \<open>k\<close> skipped columns the trace has \<open>2 + 2 r + k\<close> frames, more
  than one. Every frame is idle: it carries \<open>a'\<close> or no matrix, and no swap takes place.
\<close>

theorem rerun_leaves_matrix:
  assumes "check_matrix a = Inr ()" "gauss h a 0 0 pl = (fs, Inr a')"
  shows "\<exists>fs'. gauss h a' 0 0 pl' = (fs', Inr a') \<and>
           fs' = (Some a', None) #
                 concat (map (settled_round h pl' a') [0 ..< count_list (pivots h a 0 0 pl) True]) @
                 (None, Some []) # replicate (count_list (pivots h a 0 0 pl) False) (Some a', Some []) \<and>
           length fs' = 2 + 2 * count_list (pivots h a 0 0 pl) True + count_list (pivots h a 0 0 pl) False \<and>
           list_all (idle_frame h pl' a') fs'"
proof -
  from assms(1) have v: "a \<noteq> []" "rect (length (a ! 0)) a" by (simp_all add: check_matrix_rect)
  let ?r = "count_list (pivots h a 0 0 pl) True"
  let ?k = "count_list (pivots h a 0 0 pl) False"
  let ?fs = "initial_frame a' 0 0 @ concat (map (settled_round h pl' a') [0 ..< 0 + ?r]) @
             (None, Some []) # replicate ?k (Some a', Some [])"
  from gauss_rerun_trace[OF v(2,1), of 0 0 h pl pl'] assms(2) have
    g: "gauss h a' 0 0 pl' = (?fs, Inr a')" and le: "0 + ?r \<le> length a'" by auto
  have idle: "list_all (idle_frame h pl' a') ?fs" using le by (rule idle_settled_trace)
  have "length (concat (map (settled_round h pl' a') [0 ..< n])) = 2 * n" for n
    by (induction n) (simp_all add: settled_round_def)
  then have len: "length ?fs = 2 + 2 * ?r + ?k" by (simp add: initial_frame_def)
  have eq: "?fs = (Some a', None) # concat (map (settled_round h pl' a') [0 ..< ?r]) @
                 (None, Some []) # replicate ?k (Some a', Some [])"
    by (simp add: initial_frame_def)
  from g idle len show ?thesis unfolding eq by blast
qed

theorem rerun_leaves_matrix_witness:
  "check_matrix [[1, 1, 3], [2, - 1, 0]] = Inr () \<and>
   snd (gauss calls [[1, 1, 3], [2, - 1, 0]] 0 0 False) = Inr [[1, 1, 3], [0, 1, 2]] \<and>
   pivots calls [[1, 1, 3], [2, - 1, 0]] 0 0 False = [True, True] \<and>
   gauss calls [[1, 1, 3], [0, 1, 2]] 0 0 True =
     ([(Some [[1, 1, 3], [0, 1, 2]], None),
       (Some [[1, 1, 3], [0, 1, 2]], Some [(0, Exp_divide 1 True)]),
       (Some [[1, 1, 3], [0, 1, 2]], Some [(1, Exp_minus 0 0 True)]),
       (Some [[1, 1, 3], [0, 1, 2]], Some [(1, Exp_divide 1 True)]),
       (Some [[1, 1, 3], [0, 1, 2]], Some []),
       (None, Some [])], Inr [[1, 1, 3], [0, 1, 2]]) \<and>
   list_all (idle_frame calls True [[1, 1, 3], [0, 1, 2]])
     (fst (gauss calls [[1, 1, 3], [0, 1, 2]] 0 0 True)) \<and>
   check_matrix [[0, 1, 5], [0, 2, 10]] = Inr () \<and>
   snd (gauss calls [[0, 1, 5], [0, 2, 10]] 0 0 False) = Inr [[0, 1, 5], [0, 0, 0]] \<and>
   pivots calls [[0, 1, 5], [0, 2, 10]] 0 0 False = [False, True, False] \<and>
   gauss calls [[0, 1, 5], [0, 0, 0]] 0 0 True =
     ([(Some [[0, 1, 5], [0, 0, 0]], None),
       (Some [[0, 1, 5], [0, 0, 0]], Some [(0, Exp_divide 1 True)]),
       (Some [[0, 1, 5], [0, 0, 0]], Some [(1, Exp_minus 0 0 True)]),
       (None, Some []),
       (Some [[0, 1, 5], [0, 0, 0]], Some []),
       (Some [[0, 1, 5], [0, 0, 0]], Some [])], Inr [[0, 1, 5], [0, 0, 0]])"
proof -
  let ?a = "[[1, 1, 3], [2, - 1, 0 :: rat]]"
  let ?a' = "[[1, 1, 3], [0, 1, 2 :: rat]]"
  let ?b = "[[0, 1, 5], [0, 2, 10 :: rat]]"
  let ?b' = "[[0, 1, 5], [0, 0, 0 :: rat]]"
  have va: "check_matrix ?a = Inr ()" by code_simp
  have sa: "snd (gauss calls ?a 0 0 False) = Inr ?a'" by code_simp
  have pa: "pivots calls ?a 0 0 False = [True, True]" by code_simp
  from sa obtain fs where ga: "gauss calls ?a 0 0 False = (fs, Inr ?a')"
    by (cases "gauss calls ?a 0 0 False") simp
  have ea: "(Some ?a', None) #
          concat (map (settled_round calls True ?a') [0 ..< count_list [True, True] True]) @
          (None, Some []) # replicate (count_list [True, True] False) (Some ?a', Some []) =
        [(Some ?a', None),
         (Some ?a', Some [(0, Exp_divide 1 True)]),
         (Some ?a', Some [(1, Exp_minus 0 0 True)]),
         (Some ?a', Some [(1, Exp_divide 1 True)]),
         (Some ?a', Some []),
         (None, Some [])]"
    by code_simp
  from rerun_leaves_matrix[OF va ga, of True] pa ea have
    A: "gauss calls ?a' 0 0 True =
     ([(Some ?a', None),
       (Some ?a', Some [(0, Exp_divide 1 True)]),
       (Some ?a', Some [(1, Exp_minus 0 0 True)]),
       (Some ?a', Some [(1, Exp_divide 1 True)]),
       (Some ?a', Some []),
       (None, Some [])], Inr ?a') \<and>
     list_all (idle_frame calls True ?a') (fst (gauss calls ?a' 0 0 True))"
    by auto
  have vb: "check_matrix ?b = Inr ()" by code_simp
  have sb: "snd (gauss calls ?b 0 0 False) = Inr ?b'" by code_simp
  have pb: "pivots calls ?b 0 0 False = [False, True, False]" by code_simp
  from sb obtain fs where gb: "gauss calls ?b 0 0 False = (fs, Inr ?b')"
    by (cases "gauss calls ?b 0 0 False") simp
  have eb: "(Some ?b', None) #
          concat (map (settled_round calls True ?b') [0 ..< count_list [False, True, False] True]) @
          (None, Some []) # replicate (count_list [False, True, False] False) (Some ?b', Some []) =
        [(Some ?b', None),
         (Some ?b', Some [(0, Exp_divide 1 True)]),
         (Some ?b', Some [(1, Exp_minus 0 0 True)]),
         (None, Some []),
         (Some ?b', Some []),
         (Some ?b', Some [])]"
    by code_simp
  from rerun_leaves_matrix[OF vb gb, of True] pb eb have
    B: "gauss calls ?b' 0 0 True =
     ([(Some ?b', None),
       (Some ?b', Some [(0, Exp_divide 1 True)]),
       (Some ?b', Some [(1, Exp_minus 0 0 True)]),
       (None, Some []),
       (Some ?b', Some []),
       (Some ?b', Some [])], Inr ?b')"
    by auto
  from va sa pa A vb sb pb B show ?thesis by blast
qed

section \<open>Termination with a bounded trace: C8\<close>

lemma length_initial_frame: "length (initial_frame a i j) = (if i = 0 \<and> j = 0 then 1 else 0)"
  by (simp add: initial_frame_def)

lemma gauss_trace_length:
  assumes "rect n a" "a \<noteq> []" "i \<le> length a" "j \<le> n"
  shows "\<forall>fs res. gauss h a i j pl = (fs, res) \<longrightarrow>
           length fs \<le> (if i = 0 \<and> j = 0 then 1 else 0) + 3 * (n - j) + 1"
  using assms
proof (induct rule: gauss_rect_induct[where h = h and pl = pl])
  case (Boundary a i j)
  then show ?case by (simp add: length_initial_frame)
next
  case (Skip a i j fs1 a1)
  then show ?case by (auto simp: length_initial_frame)
next
  case (Round a i j fs1 a1 a2 a3 fs4 a')
  have "length fs1 \<le> 1" using Round(4) by auto
  with Round(2,3,14,16,17) show ?case by (auto simp: length_initial_frame)
qed

text \<open>
  C8. \<open>gauss\<close> is a total function: every call terminates, by the measure given above
  (a recursive call advances \<open>j\<close>, or \<open>i\<close> and \<open>j\<close>, below the bounds \<open>m\<close> and the row
  length). On a matrix that passed \<open>check_matrix\<close> the run returns, and its trace has at
  most \<open>3 * n + 2\<close> frames, \<open>n\<close> being the number of columns.
\<close>

theorem gauss_terminates:
  assumes "check_matrix a = Inr ()"
  shows "\<exists>fs a'. gauss h a 0 0 pl = (fs, Inr a') \<and> length fs \<le> 3 * length (a ! 0) + 2"
proof -
  from assms have v: "a \<noteq> []" "rect (length (a ! 0)) a" by (simp_all add: check_matrix_rect)
  from gauss_rect_result[OF v(2,1), of 0 0 h pl] obtain fs a' where
    g: "gauss h a 0 0 pl = (fs, Inr a')" by auto
  from gauss_trace_length[OF v(2,1), of 0 0 h pl] g
  have "length fs \<le> 3 * length (a ! 0) + 2" by simp
  with g show ?thesis by blast
qed

theorem gauss_terminates_witness:
  "check_matrix [[1, 1, 3], [2, - 1, 0]] = Inr () \<and>
   (\<exists>fs a'. gauss calls [[1, 1, 3], [2, - 1, 0]] 0 0 True = (fs, Inr a') \<and>
      length fs \<le> 3 * length ([[1, 1, 3], [2, - 1, 0 :: rat]] ! 0) + 2)"
proof -
  have v: "check_matrix [[1, 1, 3], [2, - 1, 0]] = Inr ()" by code_simp
  from gauss_terminates[OF v, of calls True] v show ?thesis by simp
qed

section \<open>The formatting flag: C9\<close>

lemma frame_shape_pair: "frame_shape (m, e) = (m, map_option (map fst) e)"
  by (simp add: frame_shape_def)

lemma eliminate_flag:
  "map fst ex = map fst ex' \<Longrightarrow>
   (case eliminate h pl i j ks (a, ex) of Inl e \<Rightarrow> Inl e | Inr (a3, ex3) \<Rightarrow> Inr (a3, map fst ex3)) =
   (case eliminate h pl' i j ks (a, ex') of Inl e \<Rightarrow> Inl e | Inr (a3, ex3) \<Rightarrow> Inr (a3, map fst ex3))"
proof (induction ks arbitrary: a ex ex')
  case Nil
  then show ?case by simp
next
  case (Cons k ks)
  show ?case
  proof (cases "cell a k j")
    case (Inl e)
    then show ?thesis by simp
  next
    case (Inr factor)
    have "map fst (ex @ [(k, exp_minus h factor i pl)]) = map fst (ex' @ [(k, exp_minus h factor i pl')])"
      using Cons.prems by simp
    from Cons.IH[OF this] Inr show ?thesis by simp
  qed
qed

text \<open>
  C9. For every matrix, rectangular or not, and every call \<open>gauss(a, i, j)\<close>, the runs
  with \<open>produce_latex=True\<close> and with \<open>produce_latex=False\<close> (\<open>pl\<close> and \<open>pl'\<close> below) yield
  the same sequence of matrix snapshots with the same explanation keys, and end the same
  way (same final matrix, or same exception): the flag only reaches the three helper
  calls. The witness shows a run on which the explanation texts themselves differ.
\<close>

theorem produce_latex_only_texts:
  "map frame_shape (fst (gauss h a i j pl)) = map frame_shape (fst (gauss h a i j pl')) \<and>
   snd (gauss h a i j pl) = snd (gauss h a i j pl')"
proof (induction h a i j pl rule: gauss.induct)
  case (1 h a i j pl)
  note s = gauss.simps[of h a i j pl] gauss.simps[of h a i j pl']
  show ?case
  proof (cases "a = [] \<or> i = length a \<or> j = length (a ! 0)")
    case True
    then show ?thesis by (auto simp: s Let_def)
  next
    case False
    then have ne: "a \<noteq> []" and nb: "\<not> (i = length a \<or> j = length (a ! 0))" by auto
    show ?thesis
    proof (cases "cell a i j")
      case (Inl e)
      with ne nb show ?thesis by (simp add: s Let_def)
    next
      case c: (Inr p)
      let ?ph = "\<lambda>q. if p = 0
         then case find_row a j [i + 1..<length a] of Inl e \<Rightarrow> ([], Inl e)
              | Inr None \<Rightarrow> gauss h a i (j + 1) q
              | Inr (Some r) \<Rightarrow>
                  ([(Some (swap_rows a i r), Some [(i, exp_swap h i r q)])],
                   Inr (swap_rows a i r))
         else ([], Inr a)"
      obtain fs1 r1 where ph: "?ph pl = (fs1, r1)" by (cases "?ph pl")
      obtain fs1' r1' where ph': "?ph pl' = (fs1', r1')" by (cases "?ph pl'")
      have eq1: "map frame_shape fs1 = map frame_shape fs1' \<and> r1 = r1'"
      proof (cases "p = 0")
        case False
        with ph ph' show ?thesis by simp
      next
        case True
        show ?thesis
        proof (cases "find_row a j [i + 1..<length a]")
          case (Inl e)
          with ph ph' True show ?thesis by simp
        next
          case (Inr ro)
          show ?thesis
          proof (cases ro)
            case None
            from "1.IH"(1)[OF refl ne nb c True Inr None] ph ph' True Inr None
            show ?thesis by simp
          next
            case (Some r)
            with ph ph' True Inr show ?thesis by (auto simp: frame_shape_pair)
          qed
        qed
      qed
      from eq1 ph' have ph': "?ph pl' = (fs1', r1)" and eq1: "map frame_shape fs1 = map frame_shape fs1'"
        by simp_all
      show ?thesis
      proof (cases r1)
        case (Inl e)
        with ne nb c ph ph' eq1 show ?thesis by (simp add: s Let_def)
      next
        case r1: (Inr a1)
        show ?thesis
        proof (cases "normalize_row a1 i j")
          case (Inl e)
          with ne nb c ph ph' eq1 r1 show ?thesis by (simp add: s Let_def frame_shape_pair)
        next
          case nr: (Inr x)
          obtain a2 d where x: "x = (a2, d)" by (cases x)
          have ef: "(case eliminate h pl i j [i + 1..<length a] (a2, []) of
                       Inl e \<Rightarrow> Inl e | Inr (a3, ex3) \<Rightarrow> Inr (a3, map fst ex3)) =
                    (case eliminate h pl' i j [i + 1..<length a] (a2, []) of
                       Inl e \<Rightarrow> Inl e | Inr (a3, ex3) \<Rightarrow> Inr (a3, map fst ex3))"
            by (rule eliminate_flag) simp
          show ?thesis
          proof (cases "eliminate h pl i j [i + 1..<length a] (a2, [])")
            case (Inl e)
            with ef have "eliminate h pl' i j [i + 1..<length a] (a2, []) = Inl e"
              by (auto split: sum.splits)
            with Inl ne nb c ph ph' eq1 r1 nr x show ?thesis
              by (simp add: s Let_def frame_shape_pair)
          next
            case el: (Inr y)
            obtain a3 ex where y: "y = (a3, ex)" by (cases y)
            with ef el obtain ex' where el': "eliminate h pl' i j [i + 1..<length a] (a2, []) = Inr (a3, ex')"
              and ex: "map fst ex = map fst ex'"
              by (auto split: sum.splits)
            have ih: "map frame_shape (fst (gauss h a3 (i + 1) (j + 1) pl)) =
                      map frame_shape (fst (gauss h a3 (i + 1) (j + 1) pl')) \<and>
                      snd (gauss h a3 (i + 1) (j + 1) pl) = snd (gauss h a3 (i + 1) (j + 1) pl')"
              using "1.IH"(2)[OF refl ne nb c ph[symmetric] r1 nr x[symmetric] el y[symmetric]] .
            obtain fs4 res where g4: "gauss h a3 (i + 1) (j + 1) pl = (fs4, res)"
              by (cases "gauss h a3 (i + 1) (j + 1) pl")
            obtain fs4' res' where g4': "gauss h a3 (i + 1) (j + 1) pl' = (fs4', res')"
              by (cases "gauss h a3 (i + 1) (j + 1) pl'")
            from ih g4 g4' ne nb c ph ph' eq1 r1 nr x el y el' ex show ?thesis
              by (simp add: s Let_def frame_shape_pair)
          qed
        qed
      qed
    qed
  qed
qed

theorem produce_latex_only_texts_witness:
  "map frame_shape (fst (gauss calls [[0, 1, 5], [1, 1, 8]] 0 0 True)) =
     map frame_shape (fst (gauss calls [[0, 1, 5], [1, 1, 8]] 0 0 False)) \<and>
   fst (gauss calls [[0, 1, 5], [1, 1, 8]] 0 0 True) \<noteq>
     fst (gauss calls [[0, 1, 5], [1, 1, 8]] 0 0 False)"
proof -
  have "fst (gauss calls [[0, 1, 5], [1, 1, 8]] 0 0 True) \<noteq>
        fst (gauss calls [[0, 1, 5], [1, 1, 8]] 0 0 False)"
    by code_simp
  with produce_latex_only_texts[of calls "[[0, 1, 5], [1, 1, 8]]" 0 0 True False]
  show ?thesis by simp
qed

section \<open>The calls of a run\<close>

lemma zero_block_iff:
  "zero_block a i j \<longleftrightarrow> (\<forall>r c. i \<le> r \<and> r < length a \<and> c < j \<longrightarrow> a ! r ! c = 0)"
  by (auto simp: zero_block_def list_all_iff)

lemma zero_block_below_only:
  assumes "zero_block a i j" "j \<le> n" "below_only n i a a'"
  shows "zero_block a' i j"
  unfolding zero_block_iff
proof (intro allI impI)
  fix r c assume rc: "i \<le> r \<and> r < length a' \<and> c < j"
  with assms(3) have r: "i \<le> r \<and> r < length a" unfolding below_only_def by simp
  from rc assms(2) have c: "c < n" by simp
  from assms(1) rc have "\<forall>r. i \<le> r \<and> r < length a \<longrightarrow> a ! r ! c = 0"
    unfolding zero_block_iff by blast
  with assms(3) c r show "a' ! r ! c = 0" unfolding below_only_def by blast
qed

lemma zero_block_column:
  assumes "zero_block a i j" "\<forall>r. i \<le> r \<and> r < length a \<longrightarrow> a ! r ! j = 0"
  shows "zero_block a i (j + 1)"
  unfolding zero_block_iff
proof (intro allI impI)
  fix r c assume rc: "i \<le> r \<and> r < length a \<and> c < j + 1"
  show "a ! r ! c = 0"
  proof (cases "c = j")
    case True
    with assms(2) rc show ?thesis by simp
  next
    case False
    with rc have "c < j" by simp
    with assms(1) rc show ?thesis unfolding zero_block_iff by blast
  qed
qed

lemma zero_block_Suc: "zero_block a i j \<Longrightarrow> zero_block a (i + 1) j"
  unfolding zero_block_iff by simp

text \<open>
  What a round does to a rectangular matrix with a zero block.
\<close>

lemma round_zero_block:
  assumes "rect n a" "i < length a" "j < n" "zero_block a i j"
    and d: "a ! i ! j \<noteq> 0 \<and> a1 = a \<or>
       (\<exists>r. i < r \<and> r < length a \<and> a ! r ! j \<noteq> 0 \<and> a1 = swap_rows a i r)"
    and nr: "normalize_row a1 i j = Inr (a2, divisor)"
    and el: "eliminate h pl i j [i + 1..<length a] (a2, []) = Inr (a3, ex)"
  shows "rect n a3 \<and> length a3 = length a \<and> zero_block a1 i j \<and> zero_block a2 i j \<and>
         zero_block a3 i j \<and> zero_block a3 (i + 1) (j + 1)"
proof -
  from d assms(1,2) have b1: "below_only n i a a1"
    by (auto simp: below_only_refl intro: below_only_swap)
  then have r1: "rect n a1" "length a1 = length a" unfolding below_only_def by simp_all
  from nr r1 assms(2,3) have p1: "a1 ! i ! j \<noteq> 0"
    and a2: "a2 = a1[i := map (\<lambda>coeff. coeff / (a1 ! i ! j)) (a1 ! i)]"
    by (auto simp: normalize_row_rect split: if_splits)
  have b2: "below_only n i a1 a2"
    unfolding a2 using r1 assms(2) by (intro below_only_normalize) simp_all
  then have r2: "rect n a2" "length a2 = length a" using r1 unfolding below_only_def by simp_all
  from eliminate_range[OF r2(1), of i j h pl] assms(2,3) r2(2) el
  have r3: "rect n a3" "length a3 = length a" and u3: "\<forall>r\<le>i. a3 ! r = a2 ! r"
    and e3: "\<forall>k c. i < k \<and> k < length a \<and> c < n \<longrightarrow>
               a3 ! k ! c = a2 ! k ! c - a2 ! k ! j * a2 ! i ! c"
    by auto
  have b3: "below_only n i a2 a3"
    using r3 r2 assms(2) u3 e3 by (intro below_only_eliminate[where j = j]) simp_all
  have jn: "j \<le> n" using assms(3) by simp
  have z1: "zero_block a1 i j" using assms(4) jn b1 by (rule zero_block_below_only)
  have z2: "zero_block a2 i j" using z1 jn b2 by (rule zero_block_below_only)
  have z3: "zero_block a3 i j" using z2 jn b3 by (rule zero_block_below_only)
  have one: "a2 ! i ! j = 1"
    using p1 r1 assms(2,3) by (simp add: a2 rect_nth)
  have "\<forall>r. i + 1 \<le> r \<and> r < length a3 \<longrightarrow> a3 ! r ! j = 0"
    using e3 one r3(2) assms(3) by simp
  with zero_block_Suc[OF z3] have "zero_block a3 (i + 1) (j + 1)"
    by (rule zero_block_column)
  with r3 z1 z2 z3 show ?thesis by simp
qed

lemma reached_invariant:
  assumes "rect n a0" "a0 \<noteq> []" "reached h pl a0 a i j"
  shows "rect n a \<and> length a = length a0 \<and> i \<le> length a \<and> j \<le> n \<and> zero_block a i j"
  using assms(3)
proof (induction rule: reached.induct)
  case start
  with assms show ?case by (simp add: zero_block_iff)
next
  case (next_column a i j)
  then have inv: "rect n a" "length a = length a0" "i \<le> length a" "j \<le> n" "zero_block a i j"
    by simp_all
  from inv(1) next_column(2) have "length (a ! 0) = n" by (simp add: rect_nth)
  with inv next_column(3) have ij: "i < length a" "j < n" by auto
  from next_column(4) inv(1) ij have p: "a ! i ! j = 0" by (simp add: cell_rect)
  from next_column(5) have "\<forall>r. i < r \<and> r < length a \<longrightarrow> a ! r ! j = 0"
    using find_row_range_None[OF inv(1) ij(2), of "length a" "i + 1"] by auto
  with p have "\<forall>r. i \<le> r \<and> r < length a \<longrightarrow> a ! r ! j = 0"
    by (metis le_neq_implies_less)
  with inv(5) have "zero_block a i (j + 1)" by (rule zero_block_column)
  with inv ij show ?case by simp
next
  case (next_row a i j p fs1 a1 a2 divisor a3 explanations)
  then have inv: "rect n a" "length a = length a0" "i \<le> length a" "j \<le> n" "zero_block a i j"
    by simp_all
  from inv(1) next_row(2) have "length (a ! 0) = n" by (simp add: rect_nth)
  with inv next_row(3) have ij: "i < length a" "j < n" by auto
  from next_row(4) inv(1) ij have p: "p = a ! i ! j" by (simp add: cell_rect)
  have d: "a ! i ! j \<noteq> 0 \<and> a1 = a \<or>
       (\<exists>r. i < r \<and> r < length a \<and> a ! r ! j \<noteq> 0 \<and> a1 = swap_rows a i r)"
  proof (cases "a ! i ! j = 0")
    case False
    with next_row(5) p show ?thesis by simp
  next
    case True
    have rng: "\<forall>r\<in>set [i + 1..<length a]. r < length a" by simp
    show ?thesis
    proof (cases "find_row a j [i + 1..<length a]")
      case (Inl e)
      with next_row(5) p True show ?thesis by simp
    next
      case (Inr ro)
      show ?thesis
      proof (cases ro)
        case None
        with Inr have f: "find_row a j [i + 1..<length a] = Inr None" by simp
        from next_row(4) p True have c: "cell a i j = Inr 0" by simp
        from gauss_skip_step[OF inv(1) ij c f, of h pl] next_row(5) p True f
        have "normalize_row a1 i j = Inl ZeroDivisionError" by auto
        with next_row(6) show ?thesis by simp
      next
        case (Some r)
        with Inr have f: "find_row a j [i + 1..<length a] = Inr (Some r)" by simp
        from find_row_range_SomeD[OF inv(1) ij(2) le_refl f]
        have "i < r" "r < length a" "a ! r ! j \<noteq> 0" by auto
        moreover from next_row(5) p True f have "a1 = swap_rows a i r" by simp
        ultimately show ?thesis by blast
      qed
    qed
  qed
  from round_zero_block[OF inv(1) ij inv(5) d next_row(6,7)] inv ij show ?case by simp
qed

text \<open>
  The trace of a call reached by a run is a segment of the trace of the run, and the
  frame yielded just before it carries the matrix the call is entered with.
\<close>

lemma next_column_segment:
  assumes "a \<noteq> []" "\<not> (i = length a \<or> j = length (a ! 0))" "cell a i j = Inr 0"
    "find_row a j [i + 1..<length a] = Inr None"
  shows "\<exists>post. fst (gauss h a i j pl) = initial_frame a i j @ fst (gauss h a i (j + 1) pl) @ post"
proof -
  obtain fs1 r1 where g: "gauss h a i (j + 1) pl = (fs1, r1)" by (cases "gauss h a i (j + 1) pl")
  show ?thesis
    using assms g
    by (subst gauss.simps) (auto simp: Let_def split: sum.splits prod.splits)
qed

lemma reached_trace_segment:
  "reached h pl a0 a i j \<Longrightarrow>
   \<exists>pre post. fst (gauss h a0 0 0 pl) = pre @ fst (gauss h a i j pl) @ post \<and>
     (i = 0 \<and> j = 0 \<and> a = a0 \<and> pre = [] \<or> 0 < j \<and> pre \<noteq> [] \<and> fst (last pre) = Some a)"
proof (induction rule: reached.induct)
  case start
  have "fst (gauss h a0 0 0 pl) = [] @ fst (gauss h a0 0 0 pl) @ []" by simp
  then show ?case by blast
next
  case (next_column a i j)
  then obtain pre post where run: "fst (gauss h a0 0 0 pl) = pre @ fst (gauss h a i j pl) @ post"
    and pre: "i = 0 \<and> j = 0 \<and> a = a0 \<and> pre = [] \<or> 0 < j \<and> pre \<noteq> [] \<and> fst (last pre) = Some a"
    by blast
  from next_column_segment[OF next_column(2,3,4,5), of h pl] obtain post' where
    "fst (gauss h a i j pl) = initial_frame a i j @ fst (gauss h a i (j + 1) pl) @ post'" by blast
  with run have "fst (gauss h a0 0 0 pl) =
      (pre @ initial_frame a i j) @ fst (gauss h a i (j + 1) pl) @ (post' @ post)" by simp
  moreover have "pre @ initial_frame a i j \<noteq> [] \<and> fst (last (pre @ initial_frame a i j)) = Some a"
    using pre by (auto simp: initial_frame_def)
  ultimately show ?case by (metis add_gr_0 zero_less_one)
next
  case (next_row a i j p fs1 a1 a2 divisor a3 explanations)
  then obtain pre post where run: "fst (gauss h a0 0 0 pl) = pre @ fst (gauss h a i j pl) @ post"
    by blast
  obtain fs4 r4 where g: "gauss h a3 (i + 1) (j + 1) pl = (fs4, r4)"
    by (cases "gauss h a3 (i + 1) (j + 1) pl")
  let ?pre = "initial_frame a i j @ fs1 @
         [(Some a2, Some [(i, exp_divide h divisor pl)]), (Some a3, Some explanations)]"
  have "gauss h a i j pl = (?pre @ fs4, r4)"
    using next_row(2,3,4,5,6,7) g by (subst gauss.simps) (simp add: Let_def)
  with run g have "fst (gauss h a0 0 0 pl) =
      (pre @ ?pre) @ fst (gauss h a3 (i + 1) (j + 1) pl) @ post" by simp
  moreover have "pre @ ?pre \<noteq> [] \<and> fst (last (pre @ ?pre)) = Some a3" by simp
  ultimately show ?case by (metis add_gr_0 zero_less_one)
qed

section \<open>The zero block: C10\<close>

text \<open>
  C10. In a run started as \<open>gauss(a0, 0, 0)\<close> on a matrix that passed \<open>check_matrix\<close>,
  every invocation \<open>gauss(a, i, j)\<close> reached (its trace is a segment of the trace of the
  run) is entered with \<open>a[r][c] == 0\<close> for all rows \<open>r \<ge> i\<close> and columns \<open>c < j\<close>, and
  the operations of its round keep this block zero:
  a swap of row \<open>i\<close> with a row below, the normalization of row \<open>i\<close> (on the matrix as
  entered or as swapped), and the subtraction of multiples of row \<open>i\<close> from the rows
  below.
\<close>

theorem zero_block_invariant:
  assumes "check_matrix a0 = Inr ()" "reached h pl a0 a i j"
  shows "(\<exists>pre post. fst (gauss h a0 0 0 pl) = pre @ fst (gauss h a i j pl) @ post) \<and>
    zero_block a i j \<and>
    (\<forall>r. i < r \<and> r < length a \<longrightarrow> zero_block (swap_rows a i r) i j) \<and>
    (\<forall>a1 a2 divisor a3 explanations.
       (a1 = a \<or> (\<exists>r. i < r \<and> r < length a \<and> a1 = swap_rows a i r)) \<and>
       normalize_row a1 i j = Inr (a2, divisor) \<and>
       eliminate h pl i j [i + 1..<length a] (a2, []) = Inr (a3, explanations) \<longrightarrow>
       zero_block a2 i j \<and> zero_block a3 i j)"
proof -
  from assms(1) have v: "a0 \<noteq> []" "rect (length (a0 ! 0)) a0" by (simp_all add: check_matrix_rect)
  let ?n = "length (a0 ! 0)"
  from reached_invariant[OF v(2,1) assms(2)]
  have inv: "rect ?n a" "length a = length a0" "i \<le> length a" "j \<le> ?n" "zero_block a i j"
    by simp_all
  have sw: "zero_block (swap_rows a i r) i j" if "i < r" "r < length a" for r
    using inv(5,4) below_only_swap[OF inv(1) that] by (rule zero_block_below_only)
  have "zero_block a2 i j \<and> zero_block a3 i j"
    if a1: "a1 = a \<or> (\<exists>r. i < r \<and> r < length a \<and> a1 = swap_rows a i r)"
      and nr: "normalize_row a1 i j = Inr (a2, divisor)"
      and el: "eliminate h pl i j [i + 1..<length a] (a2, []) = Inr (a3, explanations)"
    for a1 a2 divisor a3 explanations
  proof -
    from a1 inv(1) have b1: "below_only ?n i a a1"
      by (auto simp: below_only_refl intro: below_only_swap)
    then have r1: "rect ?n a1" "length a1 = length a" unfolding below_only_def by simp_all
    from nr have c: "i < length a1 \<and> j < length (a1 ! i)"
      by (auto simp: normalize_row_def cell_def split: if_splits)
    with r1 have ij: "i < length a" "j < ?n" by (auto simp: rect_nth)
    from nr r1 ij have a2: "a2 = a1[i := map (\<lambda>coeff. coeff / (a1 ! i ! j)) (a1 ! i)]"
      by (auto simp: normalize_row_rect split: if_splits)
    have b2: "below_only ?n i a1 a2"
      unfolding a2 using r1 ij by (intro below_only_normalize) simp_all
    then have r2: "rect ?n a2" "length a2 = length a" using r1 unfolding below_only_def by simp_all
    from eliminate_range[OF r2(1), of i j h pl] ij r2(2) el
    have r3: "rect ?n a3" "length a3 = length a" and u3: "\<forall>r\<le>i. a3 ! r = a2 ! r"
      and e3: "\<forall>k c. i < k \<and> k < length a \<and> c < ?n \<longrightarrow>
               a3 ! k ! c = a2 ! k ! c - a2 ! k ! j * a2 ! i ! c"
      by auto
    have b3: "below_only ?n i a2 a3"
      using r3 r2 ij u3 e3 by (intro below_only_eliminate[where j = j]) simp_all
    have z1: "zero_block a1 i j" using inv(5,4) b1 by (rule zero_block_below_only)
    have z2: "zero_block a2 i j" using z1 inv(4) b2 by (rule zero_block_below_only)
    have z3: "zero_block a3 i j" using z2 inv(4) b3 by (rule zero_block_below_only)
    from z2 z3 show ?thesis by simp
  qed
  moreover from reached_trace_segment[OF assms(2)]
  have "\<exists>pre post. fst (gauss h a0 0 0 pl) = pre @ fst (gauss h a i j pl) @ post" by blast
  ultimately show ?thesis using inv(5) sw by blast
qed

theorem zero_block_invariant_witness:
  "check_matrix [[0, 1, 5], [0, 2, 10]] = Inr () \<and>
   reached calls False [[0, 1, 5], [0, 2, 10]] [[0, 1, 5], [0, 0, 0]] 1 2 \<and>
   zero_block [[0, 1, 5], [0, 0, 0]] 1 2"
proof -
  let ?a0 = "[[0, 1, 5], [0, 2, 10 :: rat]]"
  have v: "check_matrix ?a0 = Inr ()" by code_simp
  have s: "reached calls False ?a0 ?a0 0 0" by (rule reached.start)
  have "reached calls False ?a0 ?a0 0 (0 + 1)"
  proof (rule reached.next_column[OF s])
    show "cell ?a0 0 0 = Inr 0" by code_simp
    show "find_row ?a0 0 [0 + 1..<length ?a0] = Inr None" by code_simp
  qed simp_all
  then have c1: "reached calls False ?a0 ?a0 0 1" by simp
  have "reached calls False ?a0 [[0, 1, 5], [0, 0, 0]] (0 + 1) (1 + 1)"
  proof (rule reached.next_row[OF c1, where p = 1 and ?fs1.0 = "[]" and ?a1.0 = ?a0
        and ?a2.0 = ?a0 and divisor = 1 and explanations = "[(1, Exp_minus 2 0 False)]"])
    show "cell ?a0 0 1 = Inr 1" by code_simp
    show "normalize_row ?a0 0 1 = Inr (?a0, 1)" by code_simp
    show "eliminate calls False 0 1 [0 + 1..<length ?a0] (?a0, []) =
            Inr ([[0, 1, 5], [0, 0, 0]], [(1, Exp_minus 2 0 False)])" by code_simp
  qed simp_all
  then have c2: "reached calls False ?a0 [[0, 1, 5], [0, 0, 0]] 1 2"
    by (simp add: numeral_2_eq_2)
  from zero_block_invariant[OF v c2] v c2 show ?thesis by simp
qed

section \<open>The swap: C6\<close>

lemma gauss_swap_step:
  assumes "rect n a" "i < length a" "j < n" "a ! i ! j = 0"
    and "i < r" "r < length a" "a ! r ! j \<noteq> 0" "\<forall>r'. i < r' \<and> r' < r \<longrightarrow> a ! r' ! j = 0"
  shows "\<exists>rest res. gauss h a i j pl =
           (initial_frame a i j @
            (Some (swap_rows a i r), Some [(i, exp_swap h i r pl)]) # rest, res)"
proof -
  let ?a1 = "swap_rows a i r"
  let ?a2 = "?a1[i := map (\<lambda>coeff. coeff / (?a1 ! i ! j)) (?a1 ! i)]"
  have r1: "rect n ?a1" "length ?a1 = length a"
    using assms by (simp_all add: swap_rows_rect swap_rows_length)
  then have r2: "rect n ?a2" "i < length ?a2" using assms by (simp_all add: rect_update rect_nth)
  from eliminate_range[OF r2 \<open>j < n\<close>, of h pl] r1 obtain a3 where
    el: "eliminate h pl i j [i + 1..<length a] (?a2, []) =
           Inr (a3, map (\<lambda>k. (k, exp_minus h (?a2 ! k ! j) i pl)) [i + 1..<length a])"
    by auto
  obtain fs4 res where g4: "gauss h a3 (i + 1) (j + 1) pl = (fs4, res)"
    by (cases "gauss h a3 (i + 1) (j + 1) pl")
  have "gauss h a i j pl =
        (initial_frame a i j @ [(Some ?a1, Some [(i, exp_swap h i r pl)])] @
         [(Some ?a2, Some [(i, exp_divide h (?a1 ! i ! j) pl)]),
          (Some a3, Some (map (\<lambda>k. (k, exp_minus h (?a2 ! k ! j) i pl)) [i + 1..<length a]))] @ fs4,
         res)"
    using assms by (intro gauss_round_step[OF assms(1,2,3) _ refl el g4]) blast
  then show ?thesis by simp
qed

text \<open>
  C6. In a run on a matrix that passed \<open>check_matrix\<close>, let the call \<open>gauss(a, i, j)\<close> be
  entered with a zero pivot entry \<open>a[i][j]\<close>, and let \<open>r\<close> be the first row below \<open>i\<close>
  with a non-zero entry in column \<open>j\<close>. Then the search loop stops at \<open>r\<close>, and the trace
  of the run has a frame carrying \<open>a\<close> followed at once by the frame of the swap: its
  explanation dict is \<open>{i: exp_swap(i, r, produce_latex)}\<close> and its matrix is \<open>a\<close> with
  rows \<open>i\<close> and \<open>r\<close> exchanged and every other row as it was. The witness is the run on
  the rows \<open>0;1;5\<close> and \<open>1;1;8\<close>: the original matrix, then rows \<open>0\<close> and \<open>1\<close> swapped.
\<close>

theorem swap_first_nonzero_row:
  assumes "check_matrix a0 = Inr ()" "reached h pl a0 a i j"
    and "i < length a" "j < length (a0 ! 0)" "a ! i ! j = 0"
    and "i < r" "r < length a" "a ! r ! j \<noteq> 0" "\<forall>r'. i < r' \<and> r' < r \<longrightarrow> a ! r' ! j = 0"
  shows "find_row a j [i + 1..<length a] = Inr (Some r) \<and>
         (\<exists>pre e rest. fst (gauss h a0 0 0 pl) =
            pre @ (Some a, e) # (Some (swap_rows a i r), Some [(i, exp_swap h i r pl)]) # rest) \<and>
         length (swap_rows a i r) = length a \<and>
         swap_rows a i r ! i = a ! r \<and> swap_rows a i r ! r = a ! i \<and>
         (\<forall>k. k < length a \<and> k \<noteq> i \<and> k \<noteq> r \<longrightarrow> swap_rows a i r ! k = a ! k)"
proof -
  let ?n = "length (a0 ! 0)"
  let ?swap = "(Some (swap_rows a i r), Some [(i, exp_swap h i r pl)])"
  from assms(1) have v: "a0 \<noteq> []" "rect ?n a0" by (simp_all add: check_matrix_rect)
  from reached_invariant[OF v(2,1) assms(2)] have rect: "rect ?n a" by simp
  have f: "find_row a j [i + 1..<length a] = Inr (Some r)"
    using assms by (intro find_row_range_SomeI[OF rect assms(4)]) auto
  from gauss_swap_step[OF rect assms(3-9), of h pl] obtain rest res where
    g: "gauss h a i j pl = (initial_frame a i j @ ?swap # rest, res)" by blast
  from reached_trace_segment[OF assms(2)] obtain pre post where
    run: "fst (gauss h a0 0 0 pl) = pre @ fst (gauss h a i j pl) @ post"
    and pre: "i = 0 \<and> j = 0 \<and> a = a0 \<and> pre = [] \<or> 0 < j \<and> pre \<noteq> [] \<and> fst (last pre) = Some a"
    by blast
  have "\<exists>pre e rest. fst (gauss h a0 0 0 pl) = pre @ (Some a, e) # ?swap # rest"
  proof (cases "j = 0")
    case True
    with pre run g have "fst (gauss h a0 0 0 pl) = [] @ (Some a, None) # ?swap # (rest @ post)"
      by (auto simp: initial_frame_def)
    then show ?thesis by blast
  next
    case False
    with pre have p: "pre \<noteq> []" "fst (last pre) = Some a" by auto
    then have "pre = butlast pre @ [(Some a, snd (last pre))]"
      by (metis append_butlast_last_id prod.collapse)
    with run g False have "fst (gauss h a0 0 0 pl) =
        butlast pre @ (Some a, snd (last pre)) # ?swap # (rest @ post)"
      by (simp add: initial_frame_def)
    then show ?thesis by blast
  qed
  with f assms show ?thesis by (auto simp: swap_rows_nth swap_rows_length)
qed

theorem swap_first_nonzero_row_witness:
  "check_matrix [[0, 1, 5], [1, 1, 8]] = Inr () \<and>
   reached calls False [[0, 1, 5], [1, 1, 8]] [[0, 1, 5], [1, 1, 8]] 0 0 \<and>
   find_row [[0, 1, 5], [1, 1, 8]] 0 [0 + 1..<length [[0, 1, 5], [1, 1, 8 :: rat]]] = Inr (Some 1) \<and>
   (\<exists>pre e rest. fst (gauss calls [[0, 1, 5], [1, 1, 8]] 0 0 False) =
      pre @ (Some [[0, 1, 5], [1, 1, 8]], e) #
        (Some [[1, 1, 8], [0, 1, 5]], Some [(0, Exp_swap 0 1 False)]) # rest) \<and>
   take 2 (fst (gauss calls [[0, 1, 5], [1, 1, 8]] 0 0 False)) =
     [(Some [[0, 1, 5], [1, 1, 8]], None),
      (Some [[1, 1, 8], [0, 1, 5]], Some [(0, Exp_swap 0 1 False)])]"
proof -
  let ?a = "[[0, 1, 5], [1, 1, 8 :: rat]]"
  have v: "check_matrix ?a = Inr ()" by code_simp
  have t: "take 2 (fst (gauss calls ?a 0 0 False)) =
     [(Some [[0, 1, 5], [1, 1, 8]], None),
      (Some [[1, 1, 8], [0, 1, 5]], Some [(0, Exp_swap 0 1 False)])]" by code_simp
  have s: "reached calls False ?a ?a 0 0" by (rule reached.start)
  have sw: "swap_rows ?a 0 1 = [[1, 1, 8], [0, 1, 5]]" by code_simp
  have "\<forall>r'. (0::nat) < r' \<and> r' < 1 \<longrightarrow> ?a ! r' ! 0 = 0" by simp
  from swap_first_nonzero_row[OF v s _ _ _ _ _ _ this] v s sw t
  show ?thesis by (simp add: calls_def)
qed

end
